theory Spec2Isabelle
  imports Complex_Main "HOL-Library.List_Lexorder" "HOL-Library.Char_ord" "HOL-Library.Sublist"
begin

section \<open>Values, dictionaries and errors\<close>

text \<open>
  A \<open>Container\<close> is a Python \<open>dict\<close> whose values are either nested containers or
  leaf values. The constructor wraps every nested mapping, so a leaf is never a mapping;
  leaves are arrays, sequences, scalars or \<open>None\<close> and stay abstract (type \<open>'a\<close>)
  wherever the code does not look inside them.

  A dict is modelled as the list of its items in insertion order (Python dicts keep it).
  Python compares strings by code point; \<open>string\<close> is ordered the same way (per character
  code, a proper prefix first), which is what \<open>sorted(self.items())\<close> uses: keys of a
  dict are unique, so the comparison of two items is decided by their keys.

  Exceptions are values of type \<open>error\<close>; a method that may raise returns
  \<open>error + result\<close>.
\<close>

datatype error = KeyError | TypeError | IndexError | ValueError | AttributeError | ReductionError

datatype 'a val = Leaf 'a | Sub "(string \<times> 'a val) list"

type_synonym 'a container = "(string \<times> 'a val) list"

definition dict_contains :: "(string \<times> 'b) list \<Rightarrow> string \<Rightarrow> bool" where
  "dict_contains d key = (map_of d key \<noteq> None)"

definition dict_getitem :: "(string \<times> 'b) list \<Rightarrow> string \<Rightarrow> error + 'b" where
  "dict_getitem d key = (case map_of d key of None \<Rightarrow> Inl KeyError | Some v \<Rightarrow> Inr v)"

text \<open>\<open>d[key] = v\<close> on a plain dict: an existing key keeps its position, a new key goes last.\<close>

fun dict_setitem :: "(string \<times> 'b) list \<Rightarrow> string \<Rightarrow> 'b \<Rightarrow> (string \<times> 'b) list" where
  "dict_setitem [] key v = [(key, v)]"
| "dict_setitem ((k, w) # d) key v =
     (if k = key then (key, v) # d else (k, w) # dict_setitem d key v)"

definition sorted_items :: "(string \<times> 'b) list \<Rightarrow> (string \<times> 'b) list" where
  "sorted_items d = sort_key fst d"

text \<open>\<open>key_chain.split('/')\<close>: never empty; \<open>''.split('/') == ['']\<close>.\<close>

fun split_slash :: "string \<Rightarrow> string list" where
  "split_slash [] = [[]]"
| "split_slash (c # cs) =
     (if c = CHR ''/'' then [] # split_slash cs
      else (case split_slash cs of [] \<Rightarrow> [[c]] | w # ws \<Rightarrow> (c # w) # ws))"

lemma split_slash_nonempty [simp]: "split_slash s \<noteq> []"
  by (induction s) (auto split: list.splits)

section \<open>Key-chain addressing\<close>

text \<open>
  \<open>ret[key]\<close> inside \<open>has_key_chain\<close> and \<open>at_key_chain\<close>. The keys come from
  \<open>split('/')\<close> and hold no slash, so on a container \<open>__getitem__\<close> is the plain dict
  lookup, which raises \<open>KeyError\<close> for a missing key. On a leaf, subscripting with a
  string raises as well, and never \<open>KeyError\<close>: a number, \<open>None\<close>, a list or a tuple
  raises \<open>TypeError\<close>, a numpy array \<open>IndexError\<close>. Leaves are abstract and the model has
  the one value \<open>TypeError\<close> for this exception. It is the exception of the code for the
  leaves of the examples, which are numbers; the general results below only tell raising
  from returning and \<open>KeyError\<close> from the rest.
\<close>

fun subscript :: "'a val \<Rightarrow> string \<Rightarrow> error + 'a val" where
  "subscript (Sub d) key = dict_getitem d key"
| "subscript (Leaf x) key = Inl TypeError"

text \<open>The loop \<open>for key in keys: ret = ret[key]\<close> of \<open>at_key_chain\<close>.\<close>

fun at_keys :: "'a val \<Rightarrow> string list \<Rightarrow> error + 'a val" where
  "at_keys ret [] = Inr ret"
| "at_keys ret (key # keys) =
     (case subscript ret key of Inl e \<Rightarrow> Inl e | Inr r \<Rightarrow> at_keys r keys)"

definition at_key_chain :: "'a container \<Rightarrow> string \<Rightarrow> error + 'a val" where
  "at_key_chain self key_chain = at_keys (Sub self) (split_slash key_chain)"

text \<open>
  The loop of \<open>has_key_chain\<close>: the same walk inside \<open>try ... except KeyError: return False\<close>.
  Only \<open>KeyError\<close> is caught; any other exception leaves the method.
\<close>

fun has_keys :: "'a val \<Rightarrow> string list \<Rightarrow> error + bool" where
  "has_keys ret [] = Inr True"
| "has_keys ret (key # keys) =
     (case subscript ret key of
        Inl KeyError \<Rightarrow> Inr False
      | Inl e \<Rightarrow> Inl e
      | Inr r \<Rightarrow> has_keys r keys)"

definition has_key_chain :: "'a container \<Rightarrow> string \<Rightarrow> error + bool" where
  "has_key_chain self key_chain = has_keys (Sub self) (split_slash key_chain)"

text \<open>
  \<open>set_at_key_chain\<close> walks a cursor \<open>cont\<close> down the tree and mutates the containers it
  reaches in place. A container is referenced by its parent only, so the mutation of a
  child is the replacement of the parent's entry by the child's new state: the function
  takes the state of \<open>cont\<close> before the remaining loop and returns its state after.
  \<open>keys[:-1]\<close> are the intermediate keys and \<open>keys[-1]\<close> the final one; the keys hold no
  slash, so \<open>key not in cont\<close>, \<open>cont[key] = ...\<close> and \<open>cont[key]\<close> are the plain dict
  operations. Once the cursor is a leaf, the next operation on it raises (a leaf supports
  no assignment under a string key) before anything has been changed.
\<close>

fun set_keys :: "'a container \<Rightarrow> string list \<Rightarrow> 'a val \<Rightarrow> error + 'a container" where
  "set_keys cont [] val = Inl IndexError"
| "set_keys cont [key] val = Inr (dict_setitem cont key val)"
| "set_keys cont (key # keys) val =
     (let cont1 = (if \<not> dict_contains cont key then dict_setitem cont key (Sub []) else cont)
      in case dict_getitem cont1 key of
           Inl e \<Rightarrow> Inl e
         | Inr (Leaf x) \<Rightarrow> Inl TypeError
         | Inr (Sub child) \<Rightarrow>
             (case set_keys child keys val of
                Inl e \<Rightarrow> Inl e
              | Inr child' \<Rightarrow> Inr (dict_setitem cont1 key (Sub child'))))"

text \<open>The result is \<open>self\<close>, the receiver in its state after the call.\<close>

definition set_at_key_chain :: "'a container \<Rightarrow> string \<Rightarrow> 'a val \<Rightarrow> error + 'a container" where
  "set_at_key_chain self key_chain val = set_keys self (split_slash key_chain) val"

text \<open>\<open>__setitem__\<close> for a string query: a query with a slash is a key chain.\<close>

definition setitem :: "'a container \<Rightarrow> string \<Rightarrow> 'a val \<Rightarrow> error + 'a container" where
  "setitem self query val =
     (if CHR ''/'' \<in> set query then set_at_key_chain self query val
      else Inr (dict_setitem self query val))"

text \<open>
  Whether the walk along \<open>keys\<close> meets a leaf before the final key: some proper,
  non-empty prefix of \<open>keys\<close> resolves to a leaf.
\<close>

fun is_leaf_result :: "error + 'a val \<Rightarrow> bool" where
  "is_leaf_result (Inr (Leaf x)) = True"
| "is_leaf_result r = False"

definition leaf_on_the_way :: "'a container \<Rightarrow> string list \<Rightarrow> bool" where
  "leaf_on_the_way self keys =
     list_ex (\<lambda>n. is_leaf_result (at_keys (Sub self) (take n keys))) [1..<length keys]"

text \<open>
  The container the cursor of \<open>set_at_key_chain\<close> moves to under \<open>key\<close>: the child
  container, a new empty one where the key is missing, none where the key holds a leaf.
\<close>

definition child_of :: "'a container \<Rightarrow> string \<Rightarrow> 'a container option" where
  "child_of cont key =
     (case map_of cont key of None \<Rightarrow> Some [] | Some (Sub c) \<Rightarrow> Some c | Some (Leaf x) \<Rightarrow> None)"

section \<open>Construction and traversal\<close>

text \<open>
  Most methods loop over \<open>sorted(self.items())\<close> and recurse into the values that are
  containers. Each is a pair of functions: the method, and its loop over the remaining
  sorted items. Sorting keeps the items, hence their sizes, which is what the
  termination proofs use.
\<close>

lemma size_list_insort_key [simp]:
  "size_list f (insort_key g x xs) = Suc (f x + size_list f xs)"
  by (induction xs) auto

lemma size_list_sorted_items [simp]:
  "size_list f (sorted_items d) = size_list f d"
  by (induction d) (auto simp: sorted_items_def)

text \<open>
  The constructor \<open>Container(dict_in)\<close>: the items of \<open>dict_in\<close> in key order, every
  value that is a dict (a container is one) wrapped again, and each stored with
  \<open>self[key] = ...\<close>, which is \<open>__setitem__\<close>. \<open>init_loop\<close> takes the remaining items and
  the state of \<open>self\<close>.
\<close>

function Container :: "'a container \<Rightarrow> error + 'a container"
  and init_loop :: "'a container \<Rightarrow> 'a container \<Rightarrow> error + 'a container"
where
  "Container dict_in = init_loop (sorted_items dict_in) []"
| "init_loop [] self = Inr self"
| "init_loop ((key, Leaf x) # rest) self =
     (case setitem self key (Leaf x) of
        Inl e \<Rightarrow> Inl e
      | Inr self' \<Rightarrow> init_loop rest self')"
| "init_loop ((key, Sub d) # rest) self =
     (case Container d of
        Inl e \<Rightarrow> Inl e
      | Inr c \<Rightarrow>
          (case setitem self key (Sub c) of
             Inl e \<Rightarrow> Inl e
           | Inr self' \<Rightarrow> init_loop rest self'))"
  by pat_completeness auto
termination
  by (relation "measure (\<lambda>a. case a of
          Inl d \<Rightarrow> 2 * size_list (size_prod (\<lambda>k. 0) size) d + 1
        | Inr (items, self) \<Rightarrow> 2 * size_list (size_prod (\<lambda>k. 0) size) items)")
     auto

text \<open>
  \<open>to_iterator\<close>: a generator; the model is the finite list of the pairs it yields, in
  the order it yields them. A leaf is yielded with its own key.
\<close>

function to_iterator :: "'a container \<Rightarrow> (string \<times> 'a) list"
  and iter_loop :: "'a container \<Rightarrow> (string \<times> 'a) list"
where
  "to_iterator self = iter_loop (sorted_items self)"
| "iter_loop [] = []"
| "iter_loop ((key, Sub c) # rest) = to_iterator c @ iter_loop rest"
| "iter_loop ((key, Leaf x) # rest) = (key, x) # iter_loop rest"
  by pat_completeness auto
termination
  by (relation "measure (\<lambda>a. case a of
          Inl d \<Rightarrow> 2 * size_list (size_prod (\<lambda>k. 0) size) d + 1
        | Inr items \<Rightarrow> 2 * size_list (size_prod (\<lambda>k. 0) size) items)")
     auto

definition to_flat_list :: "'a container \<Rightarrow> 'a list" where
  "to_flat_list self = map snd (to_iterator self)"

text \<open>
  \<open>from_flat_list\<close> pops the head of \<open>flat_list\<close> for every leaf, and hands the same list
  object to the recursive calls: the list is state, taken and returned. \<open>pop(0)\<close> on an
  empty list raises \<open>IndexError\<close>. \<open>ffl_loop\<close> takes the remaining items, \<open>new_dict\<close> and
  the list.
\<close>

function from_flat_list :: "'a container \<Rightarrow> 'a list \<Rightarrow> error + ('a container \<times> 'a list)"
  and ffl_loop :: "'a container \<Rightarrow> 'a container \<Rightarrow> 'a list \<Rightarrow> error + ('a container \<times> 'a list)"
where
  "from_flat_list self flat_list =
     (case ffl_loop (sorted_items self) [] flat_list of
        Inl e \<Rightarrow> Inl e
      | Inr (new_dict, flat_list') \<Rightarrow>
          (case Container new_dict of
             Inl e \<Rightarrow> Inl e
           | Inr c \<Rightarrow> Inr (c, flat_list')))"
| "ffl_loop [] new_dict flat_list = Inr (new_dict, flat_list)"
| "ffl_loop ((key, Sub c) # rest) new_dict flat_list =
     (case from_flat_list c flat_list of
        Inl e \<Rightarrow> Inl e
      | Inr (new_value, flat_list') \<Rightarrow>
          ffl_loop rest (dict_setitem new_dict key (Sub new_value)) flat_list')"
| "ffl_loop ((key, Leaf x) # rest) new_dict flat_list =
     (case flat_list of
        [] \<Rightarrow> Inl IndexError
      | new_value # flat_list' \<Rightarrow>
          ffl_loop rest (dict_setitem new_dict key (Leaf new_value)) flat_list')"
  by pat_completeness auto
termination
  by (relation "measure (\<lambda>a. case a of
          Inl (d, fl) \<Rightarrow> 2 * size_list (size_prod (\<lambda>k. 0) size) d + 1
        | Inr (items, nd, fl) \<Rightarrow> 2 * size_list (size_prod (\<lambda>k. 0) size) items)")
     auto

text \<open>
  \<open>map\<close>: \<open>func\<close> takes the leaf and its key chain. \<open>key_chains\<close> is \<open>None\<close> or a list of
  key chains, and \<open>this_key_chain in key_chains\<close> is membership. An empty container is
  falsy, so \<open>if ret:\<close> keeps a sub-container only when it is not empty. \<open>map_loop\<close> takes
  the remaining items and \<open>return_dict\<close>.
\<close>

function map_container ::
    "'a container \<Rightarrow> ('a \<Rightarrow> string \<Rightarrow> 'a) \<Rightarrow> string list option \<Rightarrow> bool \<Rightarrow> bool \<Rightarrow> string
      \<Rightarrow> error + 'a container"
  and map_loop ::
    "'a container \<Rightarrow> ('a \<Rightarrow> string \<Rightarrow> 'a) \<Rightarrow> string list option \<Rightarrow> bool \<Rightarrow> bool \<Rightarrow> string
      \<Rightarrow> 'a container \<Rightarrow> error + 'a container"
where
  "map_container self func key_chains to_apply prune_unapplied key_chain =
     (case map_loop (sorted_items self) func key_chains to_apply prune_unapplied key_chain [] of
        Inl e \<Rightarrow> Inl e
      | Inr return_dict \<Rightarrow> Container return_dict)"
| "map_loop [] func key_chains to_apply prune_unapplied key_chain return_dict = Inr return_dict"
| "map_loop ((key, Sub c) # rest) func key_chains to_apply prune_unapplied key_chain return_dict =
     (let this_key_chain = (if key_chain = [] then key else key_chain @ ''/'' @ key)
      in case map_container c func key_chains to_apply prune_unapplied this_key_chain of
           Inl e \<Rightarrow> Inl e
         | Inr ret \<Rightarrow>
             map_loop rest func key_chains to_apply prune_unapplied key_chain
               (if ret \<noteq> [] then dict_setitem return_dict key (Sub ret) else return_dict))"
| "map_loop ((key, Leaf x) # rest) func key_chains to_apply prune_unapplied key_chain return_dict =
     (let this_key_chain = (if key_chain = [] then key else key_chain @ ''/'' @ key)
      in if (case key_chains of
               None \<Rightarrow> False
             | Some kcs \<Rightarrow> (this_key_chain \<in> set kcs \<and> \<not> to_apply)
                          \<or> (this_key_chain \<notin> set kcs \<and> to_apply))
         then (if prune_unapplied
               then map_loop rest func key_chains to_apply prune_unapplied key_chain return_dict
               else map_loop rest func key_chains to_apply prune_unapplied key_chain
                      (dict_setitem return_dict key (Leaf x)))
         else map_loop rest func key_chains to_apply prune_unapplied key_chain
                (dict_setitem return_dict key (Leaf (func x this_key_chain))))"
  by pat_completeness auto
termination
  by (relation "measure (\<lambda>a. case a of
          Inl (d, r) \<Rightarrow> 2 * size_list (size_prod (\<lambda>k. 0) size) d + 1
        | Inr (items, r) \<Rightarrow> 2 * size_list (size_prod (\<lambda>k. 0) size) items)")
     auto

section \<open>Multi-tree reduce\<close>

text \<open>
  \<open>container[key]\<close> for a string: \<open>Container.__getitem__\<close> follows a key chain when the
  string has a slash and is the plain dict lookup otherwise. A leaf subscripted with a
  string raises, as in \<open>subscript\<close>.
\<close>

fun getitem :: "'a val \<Rightarrow> string \<Rightarrow> error + 'a val" where
  "getitem (Sub d) query =
     (if CHR ''/'' \<in> set query then at_key_chain d query else dict_getitem d query)"
| "getitem (Leaf x) query = Inl TypeError"

text \<open>\<open>[container[key] for container in containers]\<close>: the first failure is raised.\<close>

fun getitems :: "'a val list \<Rightarrow> string \<Rightarrow> error + 'a val list" where
  "getitems [] key = Inr []"
| "getitems (c # cs) key =
     (case getitem c key of
        Inl e \<Rightarrow> Inl e
      | Inr v \<Rightarrow> (case getitems cs key of Inl e \<Rightarrow> Inl e | Inr vs \<Rightarrow> Inr (v # vs)))"

lemma size_at_keys: "at_keys v ks = Inr w \<Longrightarrow> size w \<le> size v \<and> (ks \<noteq> [] \<longrightarrow> size w < size v)"
proof (induction ks arbitrary: v)
  case Nil
  then show ?case by simp
next
  case (Cons k ks)
  show ?case
  proof (cases v)
    case (Leaf x)
    with Cons.prems show ?thesis by simp
  next
    case (Sub d)
    with Cons.prems obtain u where u: "map_of d k = Some u" "at_keys u ks = Inr w"
      by (auto simp: dict_getitem_def split: option.splits)
    from u(1) have "(k, u) \<in> set d" by (rule map_of_SomeD)
    then have "size u < size (Sub d)"
      by (induction d) auto
    with Cons.IH[OF u(2)] Sub show ?thesis by simp
  qed
qed

lemma size_getitem: "getitem (Sub d) key = Inr v \<Longrightarrow> size v < Suc (size_list (size_prod (\<lambda>k. 0) size) d)"
  using size_at_keys[of "Sub d" "split_slash key" v] size_at_keys[of "Sub d" "[key]" v]
    split_slash_nonempty[of key]
  by (auto simp: at_key_chain_def split: if_splits sum.splits)

text \<open>
  \<open>Container.reduce(containers, reduction)\<close>. \<open>containers[0]\<close> raises \<open>IndexError\<close> on an
  empty list. When the first element is a dict, the loop is over its keys, in its
  insertion order, and \<open>reduce_loop\<close> takes the remaining keys, the first container, the
  others, and \<open>return_dict\<close>. Otherwise the reduction is called on the list; it returns a
  leaf value or raises (\<open>None\<close>), and what it raises is raised again as an \<open>Exception\<close>.
\<close>

function reduce :: "'a val list \<Rightarrow> ('a val list \<Rightarrow> 'a option) \<Rightarrow> error + 'a val"
  and reduce_loop ::
    "string list \<Rightarrow> 'a container \<Rightarrow> 'a val list \<Rightarrow> ('a val list \<Rightarrow> 'a option) \<Rightarrow> 'a container
      \<Rightarrow> error + 'a container"
where
  "reduce [] reduction = Inl IndexError"
| "reduce (Leaf x # cs) reduction =
     (case reduction (Leaf x # cs) of None \<Rightarrow> Inl ReductionError | Some y \<Rightarrow> Inr (Leaf y))"
| "reduce (Sub container0 # cs) reduction =
     (case reduce_loop (map fst container0) container0 cs reduction [] of
        Inl e \<Rightarrow> Inl e
      | Inr return_dict \<Rightarrow>
          (case Container return_dict of Inl e \<Rightarrow> Inl e | Inr c \<Rightarrow> Inr (Sub c)))"
| "reduce_loop [] container0 cs reduction return_dict = Inr return_dict"
| "reduce_loop (key # keys) container0 cs reduction return_dict =
     (case getitems (Sub container0 # cs) key of
        Inl e \<Rightarrow> Inl e
      | Inr vs \<Rightarrow>
          (case reduce vs reduction of
             Inl e \<Rightarrow> Inl e
           | Inr v \<Rightarrow> reduce_loop keys container0 cs reduction (dict_setitem return_dict key v)))"
  by pat_completeness auto
termination
  by (relation "inv_image (less_than <*lex*> less_than <*lex*> less_than)
        (\<lambda>a. case a of
            Inl (cs, r) \<Rightarrow> (case cs of [] \<Rightarrow> 0 | c # cs' \<Rightarrow> size c, 1, 0)
          | Inr (keys, c0, cs, r, rd) \<Rightarrow> (size (Sub c0), 0, length keys))")
     (auto split: sum.splits dest: size_getitem simp del: getitem.simps)

section \<open>Consensus shape\<close>

text \<open>
  \<open>_get_shape\<close> looks inside the leaves, so here they are Python values: an array of
  the backend (known by its shape), a list, a tuple, a number, or \<open>None\<close>.
\<close>

datatype pyval = Array "nat list" | PyList "pyval list" | PyTuple "pyval list" | PyInt int | PyNone

text \<open>
  The function mapped over the leaves:
  \<open>lambda x, kc: list(x.shape) if is_array(x) else ([len(x)] if isinstance(x, (list, tuple)) else None)\<close>.
\<close>

fun shape_or_len :: "pyval \<Rightarrow> string \<Rightarrow> pyval" where
  "shape_or_len (Array s) kc = PyList (map (\<lambda>n. PyInt (int n)) s)"
| "shape_or_len (PyList xs) kc = PyList [PyInt (int (length xs))]"
| "shape_or_len (PyTuple xs) kc = PyList [PyInt (int (length xs))]"
| "shape_or_len x kc = PyNone"

text \<open>
  The truth value tested by \<open>if v\<close>. \<open>None\<close>, zero and empty sequences are false. The
  truth value of an array depends on its elements, which the model does not hold, and is
  an error for more than one element; it is modelled as the error (no array reaches the
  test: the mapped function returns a list or \<open>None\<close>).
\<close>

fun truthy :: "pyval \<Rightarrow> error + bool" where
  "truthy (Array s) = Inl ValueError"
| "truthy (PyList xs) = Inr (xs \<noteq> [])"
| "truthy (PyTuple xs) = Inr (xs \<noteq> [])"
| "truthy (PyInt i) = Inr (i \<noteq> 0)"
| "truthy PyNone = Inr False"

text \<open>\<open>[v for k, v in ... if v]\<close> over the pairs of the iterator.\<close>

fun truthy_values :: "(string \<times> pyval) list \<Rightarrow> error + pyval list" where
  "truthy_values [] = Inr []"
| "truthy_values ((k, v) # rest) =
     (case truthy v of
        Inl e \<Rightarrow> Inl e
      | Inr b \<Rightarrow>
          (case truthy_values rest of
             Inl e \<Rightarrow> Inl e
           | Inr vs \<Rightarrow> Inr (if b then v # vs else vs)))"

text \<open>
  A value read as a list of integers, as \<open>len\<close>, the slice and \<open>np.asarray\<close> do with
  each \<open>sub_shape\<close>; anything else has no such reading.
\<close>

fun int_of_pyval :: "pyval \<Rightarrow> int option" where
  "int_of_pyval (PyInt i) = Some i"
| "int_of_pyval x = None"

fun ints_of_pyval :: "pyval \<Rightarrow> int list option" where
  "ints_of_pyval (PyList xs) = those (map int_of_pyval xs)"
| "ints_of_pyval x = None"

text \<open>
  The arithmetic of \<open>_get_shape\<close> is done by NumPy in 64-bit floating point. A float is
  modelled as the rational it denotes, and every operation as the exact operation
  followed by the rounding \<open>rnd\<close> to the nearest float, which stays a parameter (overflow
  and NaN do not arise from the quotients and products of dimensions considered here).
  \<open>int64 / int64\<close> converts both operands to float first; \<open>np.where(mask, ints, nan)\<close>
  converts the integers to float; \<open>int(i)\<close> truncates towards zero.
\<close>

definition true_divide :: "(rat \<Rightarrow> rat) \<Rightarrow> int \<Rightarrow> int \<Rightarrow> rat" where
  "true_divide rnd x d = rnd (rnd (of_int x) / rnd (of_int d))"

definition multiply :: "(rat \<Rightarrow> rat) \<Rightarrow> rat \<Rightarrow> rat \<Rightarrow> rat" where
  "multiply rnd a b = rnd (a * b)"

definition int_of_float :: "rat \<Rightarrow> int" where
  "int_of_float q = (if 0 \<le> q then \<lfloor>q\<rfloor> else \<lceil>q\<rceil>)"

text \<open>
  The part of \<open>_get_shape\<close> after the list \<open>sub_shapes\<close> is built. \<open>min\<close> of an empty
  sequence raises \<open>ValueError\<close>. \<open>np.prod(..., 0)\<close> multiplies the rows of the quotient
  array into one row, entry by entry, starting from the first row.
\<close>

definition consensus :: "(rat \<Rightarrow> rat) \<Rightarrow> int list list \<Rightarrow> error + int option list" where
  "consensus rnd sub_shapes =
     (if sub_shapes = [] then Inl ValueError
      else
        let min_num_dims = Min (set (map length sub_shapes));
            sub_shapes_array = map (take min_num_dims) sub_shapes;
            sub_shapes_array = map (map (\<lambda>d. if d = 0 then - 1 else d)) sub_shapes_array;
            first = hd sub_shapes_array;
            quotients = map (\<lambda>row. map2 (true_divide rnd) row first) sub_shapes_array;
            prod = foldl (map2 (multiply rnd)) (hd quotients) (tl quotients);
            mask = map (\<lambda>p. p = 1) prod
        in Inr (map2 (\<lambda>m d. if m then Some (int_of_float (rnd (of_int d))) else None) mask first))"

definition get_shape :: "(rat \<Rightarrow> rat) \<Rightarrow> pyval container \<Rightarrow> error + int option list" where
  "get_shape rnd self =
     (if length (map fst self) = 0 then Inr [Some 0]
      else
        case map_container self shape_or_len None True False [] of
          Inl e \<Rightarrow> Inl e
        | Inr m \<Rightarrow>
            (case truthy_values (to_iterator m) of
               Inl e \<Rightarrow> Inl e
             | Inr sub_shapes \<Rightarrow>
                 (case those (map ints_of_pyval sub_shapes) of
                    None \<Rightarrow> Inl TypeError
                  | Some rows \<Rightarrow> consensus rnd rows)))"

section \<open>Writing to an HDF5 file\<close>

text \<open>
  For \<open>to_disk_as_hdf5\<close> a leaf is what \<open>to_numpy\<close> makes of it: an array. A scalar array
  has the empty shape; any other is a batch of rows (axis 0), known by the shape of a
  row and the list of its rows.
\<close>

datatype 'r ndarray = Scalar 'r | Batch "nat list" "'r list"

text \<open>
  An HDF5 group maps names to groups and datasets. A dataset is known by the shape of a
  row and its rows along axis 0; a row never written holds the fill value (\<open>None\<close>).
  The file is state: the method takes the content of \<open>h5_obj\<close> and returns the new
  content when it returns. (\<open>mode\<close> only matters for opening a file by its path and is
  left out.)
\<close>

datatype 'r h5 = Group "(string \<times> 'r h5) list" | Dataset "nat list" "'r option list"

text \<open>
  \<open>create_dataset(key, [n] + row_shape, ...)\<close> in a group without \<open>key\<close>: \<open>n\<close> unwritten
  rows; a negative dimension is refused.
\<close>

definition create_dataset ::
    "(string \<times> 'r h5) list \<Rightarrow> string \<Rightarrow> int \<Rightarrow> nat list \<Rightarrow> error + (string \<times> 'r h5) list" where
  "create_dataset h5_obj key n row_shape =
     (if n < 0 then Inl ValueError
      else Inr (dict_setitem h5_obj key (Dataset row_shape (replicate (nat n) None))))"

text \<open>
  A bound of a slice \<open>[start:stop]\<close> on a sequence of length \<open>n\<close>, as \<open>slice.indices\<close>
  computes it: a negative bound counts from the end, and the result is kept within
  \<open>0 .. n\<close>.
\<close>

definition clip_index :: "int \<Rightarrow> nat \<Rightarrow> nat" where
  "clip_index i n = (if i < 0 then nat (i + int n) else min (nat i) n)"

text \<open>\<open>value[0:stop]\<close> on the rows of an array.\<close>

definition rows_upto :: "int \<Rightarrow> 'r list \<Rightarrow> 'r list" where
  "rows_upto stop rows = take (clip_index stop (length rows)) rows"

text \<open>
  \<open>dataset[start:stop] = rows\<close>, for a dataset with rows of shape \<open>shape\<close> and a batch with
  rows of shape \<open>row_shape\<close>. h5py clips the slice to the extent of the dataset and never
  extends the dataset. An empty selection returns at once with nothing written. Otherwise
  the batch must fit the selection: with as many rows as are selected they are stored
  from the lower bound on; a single row is broadcast to all the selected rows; any other
  number of rows raises \<open>TypeError\<close>. Rows are abstract here, so a batch whose rows are
  not of the shape of the dataset's rows is taken not to fit, although h5py broadcasts
  some of them as well.
\<close>

definition write_rows ::
    "nat list \<Rightarrow> 'r option list \<Rightarrow> int \<Rightarrow> int \<Rightarrow> nat list \<Rightarrow> 'r list \<Rightarrow> error + 'r option list" where
  "write_rows shape ds start stop row_shape rows =
     (let lo = clip_index start (length ds);
          hi = clip_index stop (length ds)
      in if hi \<le> lo then Inr ds
         else if shape \<noteq> row_shape then Inl TypeError
         else if length rows = hi - lo then Inr (take lo ds @ map Some rows @ drop hi ds)
         else if length rows = 1
           then Inr (take lo ds @ replicate (hi - lo) (Some (hd rows)) @ drop hi ds)
         else Inl TypeError)"

text \<open>
  \<open>to_disk_as_hdf5(h5_obj, starting_index, mode, max_batch_size)\<close>, where \<open>h5_obj\<close> is
  whatever the caller hands over: at the top a file or group, in a recursive call the
  member \<open>h5_obj[key]\<close> of the group above, which is a dataset when the file already has
  one under that name. \<open>hdf5_loop\<close> takes the remaining sorted items, the content of
  \<open>h5_obj\<close>, \<open>starting_index\<close> and the current value of the variable \<open>max_batch_size\<close>:
  the assignment under \<open>if not max_batch_size\<close> (\<open>None\<close> and \<open>0\<close> are false) changes the
  variable for the rest of the loop, and the recursive call for a sub-container gets its
  current value. With no items the loop does nothing, whatever \<open>h5_obj\<close> is. With an
  item, \<open>h5_obj.keys()\<close> raises \<open>AttributeError\<close> on a dataset; for a leaf,
  \<open>value_shape[0]\<close> comes first and raises \<open>IndexError\<close> for a scalar array. Assigning
  rows to a member that is a group raises.
\<close>

function to_disk_as_hdf5 ::
    "'r ndarray container \<Rightarrow> 'r h5 \<Rightarrow> int \<Rightarrow> int option \<Rightarrow> error + 'r h5"
  and hdf5_loop ::
    "'r ndarray container \<Rightarrow> 'r h5 \<Rightarrow> int \<Rightarrow> int option \<Rightarrow> error + 'r h5"
where
  "to_disk_as_hdf5 self h5_obj starting_index max_batch_size =
     hdf5_loop (sorted_items self) h5_obj starting_index max_batch_size"
| "hdf5_loop [] h5_obj starting_index max_batch_size = Inr h5_obj"
| "hdf5_loop ((key, Sub value) # rest) h5_obj starting_index max_batch_size =
     (case h5_obj of
        Dataset shape ds \<Rightarrow> Inl AttributeError
      | Group members \<Rightarrow>
          (let members1 = (if \<not> dict_contains members key
                           then dict_setitem members key (Group []) else members)
           in case dict_getitem members1 key of
                Inl e \<Rightarrow> Inl e
              | Inr h5_group \<Rightarrow>
                  (case to_disk_as_hdf5 value h5_group starting_index max_batch_size of
                     Inl e \<Rightarrow> Inl e
                   | Inr h5_group' \<Rightarrow>
                       hdf5_loop rest (Group (dict_setitem members1 key h5_group'))
                         starting_index max_batch_size)))"
| "hdf5_loop ((key, Leaf (Scalar x)) # rest) h5_obj starting_index max_batch_size = Inl IndexError"
| "hdf5_loop ((key, Leaf (Batch row_shape rows)) # rest) h5_obj starting_index max_batch_size =
     (let this_batch_size = int (length rows);
          max_batch_size1 =
            (case max_batch_size of
               None \<Rightarrow> starting_index + this_batch_size
             | Some m \<Rightarrow> if m = 0 then starting_index + this_batch_size else m)
      in case h5_obj of
           Dataset shape ds \<Rightarrow> Inl AttributeError
         | Group members \<Rightarrow>
             (case (if \<not> dict_contains members key
                    then create_dataset members key max_batch_size1 row_shape
                    else Inr members) of
                Inl e \<Rightarrow> Inl e
              | Inr members1 \<Rightarrow>
                  (let space_left = max_batch_size1 - starting_index;
                       amount_to_write = min this_batch_size space_left
                   in case dict_getitem members1 key of
                        Inl e \<Rightarrow> Inl e
                      | Inr (Group g) \<Rightarrow> Inl TypeError
                      | Inr (Dataset shape ds) \<Rightarrow>
                          (case write_rows shape ds starting_index
                                  (starting_index + amount_to_write)
                                  row_shape (rows_upto amount_to_write rows) of
                             Inl e \<Rightarrow> Inl e
                           | Inr ds' \<Rightarrow>
                               hdf5_loop rest
                                 (Group (dict_setitem members1 key (Dataset shape ds')))
                                 starting_index (Some max_batch_size1)))))"
  by pat_completeness auto
termination
  by (relation "measure (\<lambda>a. case a of
          Inl (d, r) \<Rightarrow> 2 * size_list (size_prod (\<lambda>k. 0) size) d + 1
        | Inr (items, r) \<Rightarrow> 2 * size_list (size_prod (\<lambda>k. 0) size) items)")
     auto

section \<open>Notions used in the statements\<close>

text \<open>
  Well-formed containers: the keys of a dict are unique, and no key holds a slash
  (\<open>__setitem__\<close> sends a key with a slash to \<open>set_at_key_chain\<close>, which stores its
  segments, so no container built through its own methods has such a key).
\<close>

fun well_formed_val :: "'a val \<Rightarrow> bool"
  and well_formed :: "'a container \<Rightarrow> bool"
where
  "well_formed_val (Leaf x) = True"
| "well_formed_val (Sub d) = well_formed d"
| "well_formed [] = True"
| "well_formed ((key, v) # rest) =
     (CHR ''/'' \<notin> set key \<and> \<not> dict_contains rest key \<and> well_formed_val v \<and> well_formed rest)"

text \<open>
  Equality of containers is equality of dicts: the same keys with equal values, whatever
  the insertion order. \<open>canon\<close> lists the items of a dict in key order at every level;
  two dicts are equal when their canonical listings are the same.
\<close>

function canon :: "'a container \<Rightarrow> 'a container"
  and canon_loop :: "'a container \<Rightarrow> 'a container"
where
  "canon d = canon_loop (sorted_items d)"
| "canon_loop [] = []"
| "canon_loop ((key, Leaf x) # rest) = (key, Leaf x) # canon_loop rest"
| "canon_loop ((key, Sub c) # rest) = (key, Sub (canon c)) # canon_loop rest"
  by pat_completeness auto
termination
  by (relation "measure (\<lambda>a. case a of
          Inl d \<Rightarrow> 2 * size_list (size_prod (\<lambda>k. 0) size) d + 1
        | Inr items \<Rightarrow> 2 * size_list (size_prod (\<lambda>k. 0) size) items)")
     auto

definition same_dict :: "'a container \<Rightarrow> 'a container \<Rightarrow> bool" where
  "same_dict a b = (canon a = canon b)"

text \<open>
  What a key chain resolves to, the content of containers left aside: an error, a leaf
  with its value, or a container. Two well-formed containers that are equal as dicts
  resolve every key chain alike.
\<close>

fun resolved :: "error + 'a val \<Rightarrow> error + 'a option" where
  "resolved (Inl e) = Inl e"
| "resolved (Inr (Leaf x)) = Inr (Some x)"
| "resolved (Inr (Sub c)) = Inr None"

text \<open>The number of leaves of a container.\<close>

fun num_leaves_val :: "'a val \<Rightarrow> nat"
  and num_leaves :: "'a container \<Rightarrow> nat"
where
  "num_leaves_val (Leaf x) = 1"
| "num_leaves_val (Sub d) = num_leaves d"
| "num_leaves [] = 0"
| "num_leaves ((key, v) # rest) = num_leaves_val v + num_leaves rest"

text \<open>No sub-container, at any depth, is empty.\<close>

fun no_empty_val :: "'a val \<Rightarrow> bool"
  and no_empty_sub :: "'a container \<Rightarrow> bool"
where
  "no_empty_val (Leaf x) = True"
| "no_empty_val (Sub d) = (d \<noteq> [] \<and> no_empty_sub d)"
| "no_empty_sub [] = True"
| "no_empty_sub ((key, v) # rest) = (no_empty_val v \<and> no_empty_sub rest)"

text \<open>
  The leaves of a container with their full key chains (the list of keys from the root),
  depth first, the keys of every level in order.
\<close>

function leaf_chains :: "'a container \<Rightarrow> (string list \<times> 'a) list"
  and chains_loop :: "'a container \<Rightarrow> (string list \<times> 'a) list"
where
  "leaf_chains d = chains_loop (sorted_items d)"
| "chains_loop [] = []"
| "chains_loop ((key, Leaf x) # rest) = ([key], x) # chains_loop rest"
| "chains_loop ((key, Sub c) # rest) =
     map (\<lambda>(ks, x). (key # ks, x)) (leaf_chains c) @ chains_loop rest"
  by pat_completeness auto
termination
  by (relation "measure (\<lambda>a. case a of
          Inl d \<Rightarrow> 2 * size_list (size_prod (\<lambda>k. 0) size) d + 1
        | Inr items \<Rightarrow> 2 * size_list (size_prod (\<lambda>k. 0) size) items)")
     auto

text \<open>
  The key chain \<open>map\<close> has accumulated when it reaches the node under the keys \<open>ks\<close>,
  started with \<open>key_chain\<close>: at every level
  \<open>this_key_chain = key if key_chain == '' else key_chain + '/' + key\<close>.
\<close>

fun acc_chain :: "string \<Rightarrow> string list \<Rightarrow> string" where
  "acc_chain key_chain [] = key_chain"
| "acc_chain key_chain (key # ks) =
     acc_chain (if key_chain = [] then key else key_chain @ ''/'' @ key) ks"

text \<open>
  The selection policy in the words of the specification: with no \<open>key_chains\<close> every
  leaf is operated on, otherwise the leaf at path \<open>p\<close> is operated on exactly when
  \<open>(p in key_chains) == to_apply\<close>.
\<close>

definition selected :: "string list option \<Rightarrow> bool \<Rightarrow> string \<Rightarrow> bool" where
  "selected key_chains to_apply p =
     (case key_chains of None \<Rightarrow> True | Some kcs \<Rightarrow> (p \<in> set kcs) = to_apply)"

text \<open>
  The items \<open>map\<close> puts into \<open>return_dict\<close>, one after the other (used in the proofs:
  for a well-formed container \<open>map\<close> returns exactly these items).
\<close>

function mapped ::
    "'a container \<Rightarrow> ('a \<Rightarrow> string \<Rightarrow> 'a) \<Rightarrow> string list option \<Rightarrow> bool \<Rightarrow> bool \<Rightarrow> string
      \<Rightarrow> 'a container"
  and mapped_loop ::
    "'a container \<Rightarrow> ('a \<Rightarrow> string \<Rightarrow> 'a) \<Rightarrow> string list option \<Rightarrow> bool \<Rightarrow> bool \<Rightarrow> string
      \<Rightarrow> 'a container"
where
  "mapped d func key_chains to_apply prune_unapplied key_chain =
     mapped_loop (sorted_items d) func key_chains to_apply prune_unapplied key_chain"
| "mapped_loop [] func key_chains to_apply prune_unapplied key_chain = []"
| "mapped_loop ((key, Sub c) # rest) func key_chains to_apply prune_unapplied key_chain =
     (let ret = mapped c func key_chains to_apply prune_unapplied
                  (if key_chain = [] then key else key_chain @ ''/'' @ key)
      in (if ret \<noteq> [] then [(key, Sub ret)] else [])
         @ mapped_loop rest func key_chains to_apply prune_unapplied key_chain)"
| "mapped_loop ((key, Leaf x) # rest) func key_chains to_apply prune_unapplied key_chain =
     (let this_key_chain = (if key_chain = [] then key else key_chain @ ''/'' @ key)
      in (if selected key_chains to_apply this_key_chain
          then [(key, Leaf (func x this_key_chain))]
          else if prune_unapplied then [] else [(key, Leaf x)])
         @ mapped_loop rest func key_chains to_apply prune_unapplied key_chain)"
  by pat_completeness auto
termination
  by (relation "measure (\<lambda>a. case a of
          Inl (d, r) \<Rightarrow> 2 * size_list (size_prod (\<lambda>k. 0) size) d + 1
        | Inr (items, r) \<Rightarrow> 2 * size_list (size_prod (\<lambda>k. 0) size) items)")
     auto

text \<open>
  \<open>agrees t0 t\<close>: the two have the same topology, that is the same keys at every level
  and leaves at the same places.
\<close>

fun agrees :: "'a val \<Rightarrow> 'a val \<Rightarrow> bool"
  and agrees_items :: "'a container \<Rightarrow> 'a container \<Rightarrow> bool"
where
  "agrees (Leaf x) (Leaf y) = True"
| "agrees (Leaf x) (Sub c) = False"
| "agrees (Sub c0) (Leaf y) = False"
| "agrees (Sub c0) (Sub c) = (length c0 = length c \<and> agrees_items c0 c)"
| "agrees_items [] c = True"
| "agrees_items ((key, v0) # rest) c =
     ((case map_of c key of None \<Rightarrow> False | Some v \<Rightarrow> agrees v0 v) \<and> agrees_items rest c)"

text \<open>
  A reduction for the examples: it adds up a list of numbers, and raises when an element
  of the list is not a number.
\<close>

fun add_leaves :: "int val list \<Rightarrow> int option" where
  "add_leaves [] = Some 0"
| "add_leaves (Leaf x # vs) = map_option (\<lambda>s. x + s) (add_leaves vs)"
| "add_leaves (Sub c # vs) = None"

text \<open>
  What a successful \<open>reduce\<close> of the list \<open>cs\<close> has established, \<open>r\<close> being its result
  (used in the proofs): \<open>r\<close> is well formed; every key chain that resolves in the first
  element resolves in every element; and at every key chain where the first element has
  a leaf, \<open>r\<close> has the leaf that \<open>reduction\<close> returned for the values of all elements
  under that key chain.
\<close>

definition reduces_to :: "('a val list \<Rightarrow> 'a option) \<Rightarrow> 'a val list \<Rightarrow> 'a val \<Rightarrow> bool" where
  "reduces_to reduction cs r \<longleftrightarrow>
     well_formed_val r
     \<and> (\<forall>t \<in> set cs. \<forall>ks v. at_keys (hd cs) ks = Inr v \<longrightarrow> (\<exists>u. at_keys t ks = Inr u))
     \<and> (\<forall>ks x. at_keys (hd cs) ks = Inr (Leaf x) \<longrightarrow>
           (\<exists>vs y. map (\<lambda>t. at_keys t ks) cs = map Inr vs \<and> reduction vs = Some y
                 \<and> at_keys r ks = Inr (Leaf y)))"

text \<open>
  What \<open>reduce\<close> needs of the list \<open>cs\<close> in order to return (used in the proofs): every key
  chain that resolves in the first element resolves in every element, and at every key
  chain where the first element has a leaf, \<open>reduction\<close> returns a value for the values
  of all elements under that key chain.
\<close>

definition reducible :: "('a val list \<Rightarrow> 'a option) \<Rightarrow> 'a val list \<Rightarrow> bool" where
  "reducible reduction cs \<longleftrightarrow>
     (\<forall>t \<in> set cs. \<forall>ks v. at_keys (hd cs) ks = Inr v \<longrightarrow> (\<exists>u. at_keys t ks = Inr u))
     \<and> (\<forall>ks x. at_keys (hd cs) ks = Inr (Leaf x) \<longrightarrow>
           (\<exists>vs y. map (\<lambda>t. at_keys t ks) cs = map Inr vs \<and> reduction vs = Some y))"

text \<open>
  The ranked leaves of a container are the arrays of rank at least one and the lists and
  tuples; \<open>rank_shape\<close> is the shape of such a leaf (for a list or tuple, its length),
  and \<open>ranked_shapes\<close> lists the shapes of the ranked leaves in the order of the iterator.
\<close>

fun rank_shape :: "pyval \<Rightarrow> int list option" where
  "rank_shape (Array s) = (if s = [] then None else Some (map int s))"
| "rank_shape (PyList xs) = Some [int (length xs)]"
| "rank_shape (PyTuple xs) = Some [int (length xs)]"
| "rank_shape x = None"

definition ranked_shapes :: "pyval container \<Rightarrow> int list list" where
  "ranked_shapes T = List.map_filter rank_shape (to_flat_list T)"

text \<open>
  What the results on shapes assume of the rounding to 64-bit floats: integers up to
  \<open>2^53\<close> in magnitude are floats; rounding is monotone and leaves a float unchanged;
  and only numbers within \<open>2^-53\<close> of \<open>1\<close> round to \<open>1\<close>. Rounding to nearest has these
  properties, and so has the identity.
\<close>

definition float64_rounding :: "(rat \<Rightarrow> rat) \<Rightarrow> bool" where
  "float64_rounding rnd \<longleftrightarrow>
     (\<forall>n::int. \<bar>n\<bar> \<le> 2 ^ 53 \<longrightarrow> rnd (of_int n) = of_int n)
     \<and> (\<forall>x y. x \<le> y \<longrightarrow> rnd x \<le> rnd y)
     \<and> (\<forall>x. rnd (rnd x) = rnd x)
     \<and> (\<forall>x. rnd x = 1 \<longrightarrow> \<bar>x - 1\<bar> \<le> 1 / 2 ^ 53)"

text \<open>
  The shape entry computed from one column of \<open>sub_shapes_array\<close> (used in the proofs):
  \<open>adjust\<close> is the replacement of \<open>0\<close> by \<open>-1\<close>, and \<open>column_value\<close> divides the
  column by its first entry, multiplies the quotients and compares the product with 1.
\<close>

definition adjust :: "int \<Rightarrow> int" where
  "adjust d = (if d = 0 then - 1 else d)"

definition column_value :: "(rat \<Rightarrow> rat) \<Rightarrow> int list \<Rightarrow> int option" where
  "column_value rnd col =
     (let qs = map (\<lambda>x. true_divide rnd x (hd col)) col
      in if foldl (multiply rnd) (hd qs) (tl qs) = 1
         then Some (int_of_float (rnd (of_int (hd col)))) else None)"

section \<open>Key chains: auxiliary facts\<close>

lemma map_of_dict_setitem [simp]:
  "map_of (dict_setitem d key v) = (map_of d)(key \<mapsto> v)"
  by (induction d key v rule: dict_setitem.induct) auto

lemma dict_setitem_twice [simp]:
  "dict_setitem (dict_setitem d key v) key w = dict_setitem d key w"
  by (induction d key v rule: dict_setitem.induct) auto

lemma set_keys_step:
  "set_keys cont (key # k2 # ks) val =
     (case child_of cont key of
        None \<Rightarrow> Inl TypeError
      | Some child \<Rightarrow>
          (case set_keys child (k2 # ks) val of
             Inl e \<Rightarrow> Inl e
           | Inr child' \<Rightarrow> Inr (dict_setitem cont key (Sub child'))))"
  by (auto simp: child_of_def dict_contains_def dict_getitem_def Let_def
           split: option.splits val.splits sum.splits)

lemma at_keys_step:
  "at_keys (Sub cont) (key # ks) =
     (case map_of cont key of None \<Rightarrow> Inl KeyError | Some v \<Rightarrow> at_keys v ks)"
  by (simp add: dict_getitem_def split: option.splits)

lemma at_keys_leaf: "at_keys (Leaf x) ks = (if ks = [] then Inr (Leaf x) else Inl TypeError)"
  by (cases ks) auto

declare set_keys.simps(3) [simp del]
declare at_keys.simps(2) [simp del]

lemma set_keys_returns:
  "keys \<noteq> [] \<Longrightarrow>
   (\<forall>n x. 0 < n \<and> n < length keys \<longrightarrow> at_keys (Sub cont) (take n keys) \<noteq> Inr (Leaf x)) \<Longrightarrow>
   \<exists>cont'. set_keys cont keys val = Inr cont'"
proof (induction keys arbitrary: cont)
  case Nil
  then show ?case by simp
next
  case (Cons key keys)
  show ?case
  proof (cases keys)
    case Nil
    then show ?thesis by simp
  next
    case (Cons k2 ks)
    have noleaf: "\<And>n x. 0 < n \<Longrightarrow> n < length (key # keys) \<Longrightarrow>
        at_keys (Sub cont) (take n (key # keys)) \<noteq> Inr (Leaf x)"
      using Cons.prems(2) by blast
    have notleaf: "map_of cont key \<noteq> Some (Leaf x)" for x
      using noleaf[of 1 x] Cons by (auto simp: at_keys_step split: option.splits)
    then have "\<exists>child. child_of cont key = Some child"
      by (cases "map_of cont key"; cases "the (map_of cont key)") (auto simp: child_of_def)
    then obtain child where child: "child_of cont key = Some child" ..
    have "\<forall>n x. 0 < n \<and> n < length keys \<longrightarrow> at_keys (Sub child) (take n keys) \<noteq> Inr (Leaf x)"
    proof (intro allI impI)
      fix n x assume n: "0 < n \<and> n < length keys"
      show "at_keys (Sub child) (take n keys) \<noteq> Inr (Leaf x)"
      proof (cases "map_of cont key")
        case None
        then have "child = []" using child by (simp add: child_of_def)
        then show ?thesis using n by (cases keys; cases n) (auto simp: at_keys_step)
      next
        case (Some v)
        then have v: "v = Sub child" using child notleaf
          by (cases v) (auto simp: child_of_def)
        from noleaf[of "Suc n" x] n Some v show ?thesis
          by (simp add: at_keys_step)
      qed
    qed
    with Cons.IH[of child] Cons obtain child' where "set_keys child keys val = Inr child'"
      by auto
    then show ?thesis using child Cons by (simp add: set_keys_step)
  qed
qed

lemma set_keys_assigns:
  "set_keys cont keys val = Inr cont' \<Longrightarrow> at_keys (Sub cont') keys = Inr val"
proof (induction keys arbitrary: cont cont')
  case Nil
  then show ?case by simp
next
  case (Cons key keys)
  show ?case
  proof (cases keys)
    case Nil
    then show ?thesis using Cons.prems by (auto simp: at_keys_step)
  next
    case (Cons k2 ks)
    with Cons.prems obtain child child' where
      "set_keys child keys val = Inr child'" "cont' = dict_setitem cont key (Sub child')"
      by (auto simp: set_keys_step split: option.splits sum.splits)
    with Cons.IH[of child child'] show ?thesis
      by (simp add: at_keys_step)
  qed
qed

lemma set_keys_frame:
  "set_keys cont keys val = Inr cont' \<Longrightarrow> \<not> prefix ks keys \<Longrightarrow> \<not> prefix keys ks \<Longrightarrow>
   at_keys (Sub cont') ks = at_keys (Sub cont) ks"
proof (induction keys arbitrary: cont cont' ks)
  case Nil
  then show ?case by simp
next
  case (Cons key keys)
  from Cons.prems(2) obtain k ks' where ks: "ks = k # ks'" by (cases ks) auto
  show ?case
  proof (cases keys)
    case Nil
    with Cons.prems ks have "k \<noteq> key" by auto
    with Nil Cons.prems(1) ks show ?thesis by (auto simp: at_keys_step)
  next
    case (Cons k2 ks2)
    with Cons.prems(1) obtain child child' where
      c: "child_of cont key = Some child" "set_keys child keys val = Inr child'"
         "cont' = dict_setitem cont key (Sub child')"
      by (auto simp: set_keys_step split: option.splits sum.splits)
    show ?thesis
    proof (cases "k = key")
      case False
      then show ?thesis using c ks by (simp add: at_keys_step)
    next
      case True
      with Cons.prems ks have np: "\<not> prefix ks' keys" "\<not> prefix keys ks'" by auto
      from Cons.IH[OF c(2) np] have ih: "at_keys (Sub child') ks' = at_keys (Sub child) ks'" .
      from np have ks'ne: "ks' \<noteq> []" by auto
      show ?thesis
      proof (cases "map_of cont key")
        case None
        then have "child = []" using c by (simp add: child_of_def)
        then show ?thesis using ih None True ks c ks'ne
          by (cases ks') (auto simp: at_keys_step)
      next
        case (Some v)
        then have "v = Sub child" using c by (cases v) (auto simp: child_of_def)
        then show ?thesis using ih Some True ks c by (simp add: at_keys_step)
      qed
    qed
  qed
qed

lemma set_keys_intermediate:
  "set_keys cont keys val = Inr cont' \<Longrightarrow> 0 < n \<Longrightarrow> n < length keys \<Longrightarrow>
   \<exists>c. at_keys (Sub cont') (take n keys) = Inr (Sub c) \<and>
       (at_keys (Sub cont) (take n keys) = Inl KeyError \<longrightarrow> map fst c = [keys ! n])"
proof (induction keys arbitrary: cont cont' n)
  case Nil
  then show ?case by simp
next
  case (Cons key keys)
  from Cons.prems obtain k2 ks where keys: "keys = k2 # ks" by (cases keys) auto
  with Cons.prems(1) obtain child child' where
    c: "child_of cont key = Some child" "set_keys child keys val = Inr child'"
       "cont' = dict_setitem cont key (Sub child')"
    by (auto simp: set_keys_step split: option.splits sum.splits)
  from Cons.prems obtain m where n: "n = Suc m" by (cases n) auto
  show ?case
  proof (cases m)
    case 0
    have "child = [] \<Longrightarrow> map fst child' = [k2]"
      using c(2) keys
      by (cases ks) (auto simp: set_keys_step child_of_def split: option.splits sum.splits)
    then show ?thesis using n 0 c keys
      by (auto simp: at_keys_step child_of_def split: option.splits val.splits)
  next
    case (Suc m')
    with Cons.prems n have m: "0 < m" "m < length keys" by auto
    from Cons.IH[OF c(2) m] obtain cc where
      cc: "at_keys (Sub child') (take m keys) = Inr (Sub cc)"
          "at_keys (Sub child) (take m keys) = Inl KeyError \<longrightarrow> map fst cc = [keys ! m]"
      by (elim exE conjE)
    have "at_keys (Sub cont) (take n (key # keys)) = Inl KeyError \<Longrightarrow>
          at_keys (Sub child) (take m keys) = Inl KeyError"
      using n c(1) m keys Suc
      by (auto simp: at_keys_step child_of_def split: option.splits val.splits)
    then show ?thesis using cc n c m
      by (auto simp: at_keys_step)
  qed
qed

lemma leaf_on_the_way_iff:
  "leaf_on_the_way self keys \<longleftrightarrow>
   (\<exists>n x. 0 < n \<and> n < length keys \<and> at_keys (Sub self) (take n keys) = Inr (Leaf x))"
proof -
  have "is_leaf_result r \<longleftrightarrow> (\<exists>x. r = Inr (Leaf x))" for r :: "error + 'a val"
    by (cases r rule: is_leaf_result.cases) auto
  then have "leaf_on_the_way self keys \<longleftrightarrow>
      (\<exists>n\<in>set [1..<length keys]. \<exists>x. at_keys (Sub self) (take n keys) = Inr (Leaf x))"
    by (simp add: leaf_on_the_way_def list_ex_iff)
  also have "\<dots> \<longleftrightarrow>
      (\<exists>n x. 0 < n \<and> n < length keys \<and> at_keys (Sub self) (take n keys) = Inr (Leaf x))"
    by (metis One_nat_def Suc_leI atLeastLessThan_iff less_eq_Suc_le set_upt)
  finally show ?thesis .
qed

lemma set_keys_raises:
  "0 < n \<Longrightarrow> n < length keys \<Longrightarrow> at_keys (Sub cont) (take n keys) = Inr (Leaf x) \<Longrightarrow>
   \<exists>e. set_keys cont keys val = Inl e"
proof (induction keys arbitrary: cont n)
  case Nil
  then show ?case by simp
next
  case (Cons key keys)
  from Cons.prems obtain k2 ks where keys: "keys = k2 # ks" by (cases keys) auto
  from Cons.prems obtain m where n: "n = Suc m" by (cases n) auto
  have t: "take n (key # keys) = key # take m keys" using n by simp
  from Cons.prems(3) have "at_keys (Sub cont) (key # take m keys) = Inr (Leaf x)"
    unfolding t .
  then obtain v where v: "map_of cont key = Some v" "at_keys v (take m keys) = Inr (Leaf x)"
    by (cases "map_of cont key") (simp_all add: at_keys_step)
  show ?case
  proof (cases v)
    case (Leaf y)
    with v(1) keys show ?thesis by (simp add: set_keys_step child_of_def)
  next
    case (Sub child)
    have "m \<noteq> 0"
    proof
      assume "m = 0"
      with v(2) Sub show False by simp
    qed
    with Cons.prems(2) n have m: "0 < m" "m < length keys" by simp_all
    from v(2) Sub have "at_keys (Sub child) (take m keys) = Inr (Leaf x)" by simp
    from Cons.IH[OF m this] obtain e where "set_keys child keys val = Inl e" ..
    with v(1) Sub keys show ?thesis by (simp add: set_keys_step child_of_def)
  qed
qed
section \<open>Construction and traversal: auxiliary facts\<close>

lemma set_sorted_items [simp]: "set (sorted_items d) = set d"
  by (simp add: sorted_items_def)

lemma sorted_sorted_items [simp]: "sorted (map fst (sorted_items d))"
  by (simp add: sorted_items_def)

lemma distinct_sorted_items [simp]:
  "distinct (map fst (sorted_items d)) = distinct (map fst d)"
  by (induction d) (auto simp: sorted_items_def distinct_insort_key)

lemma sorted_items_id: "sorted (map fst d) \<Longrightarrow> sorted_items d = d"
  by (simp add: sorted_items_def sort_key_id_if_sorted)

lemma dict_contains_iff: "dict_contains d key \<longleftrightarrow> key \<in> fst ` set d"
  by (simp add: dict_contains_def map_of_eq_None_iff)

lemma well_formed_iff:
  "well_formed d \<longleftrightarrow>
     distinct (map fst d) \<and> (\<forall>(k, v) \<in> set d. CHR ''/'' \<notin> set k \<and> well_formed_val v)"
  by (induction d) (force simp: dict_contains_iff)+

lemma well_formed_sorted_items [simp]: "well_formed (sorted_items d) = well_formed d"
  by (simp add: well_formed_iff)

lemma dict_setitem_new: "key \<notin> fst ` set d \<Longrightarrow> dict_setitem d key v = d @ [(key, v)]"
  by (induction d key v rule: dict_setitem.induct) auto

lemma setitem_new:
  "CHR ''/'' \<notin> set key \<Longrightarrow> key \<notin> fst ` set self \<Longrightarrow> setitem self key v = Inr (self @ [(key, v)])"
  by (simp add: setitem_def dict_setitem_new)

lemma items_induct [case_names Nil Leaf Sub]:
  fixes items :: "'a container"
  assumes "P []"
    and "\<And>key x rest. P rest \<Longrightarrow> P ((key, Leaf x) # rest)"
    and "\<And>key c rest. P rest \<Longrightarrow> P ((key, Sub c) # rest)"
  shows "P items"
proof (induction items)
  case Nil
  show ?case by (rule assms(1))
next
  case (Cons a items)
  obtain k v where a: "a = (k, v)" by (cases a)
  show ?case using Cons assms(2,3) unfolding a by (cases v) auto
qed

lemma map_fst_canon_loop [simp]: "map fst (canon_loop items) = map fst items"
  by (induction items rule: items_induct) auto

lemma fst_set_canon_loop [simp]: "fst ` set (canon_loop items) = fst ` set items"
  by (metis list.set_map map_fst_canon_loop)

lemma Container_well_formed:
  fixes d :: "'a container" and items :: "'a container"
  shows "well_formed d \<Longrightarrow> Container d = Inr (canon d)"
  and "well_formed items \<Longrightarrow> fst ` set items \<inter> fst ` set self = {} \<Longrightarrow>
     init_loop items self = Inr (self @ canon_loop items)"
proof (induction d and items self rule: Container_init_loop.induct)
  case (1 dict_in)
  then show ?case by simp
next
  case (2 self)
  then show ?case by simp
next
  case (3 key x rest self)
  then show ?case
    by (auto simp: setitem_new dict_contains_iff)
next
  case (4 key d rest self)
  then show ?case
    by (auto simp: setitem_new dict_contains_iff)
qed

lemma canon_loop_well_formed:
  fixes d :: "'a container" and items :: "'a container"
  shows "well_formed d \<Longrightarrow> well_formed (canon d)"
  and "well_formed items \<Longrightarrow> well_formed (canon_loop items)"
  by (induction d and items rule: canon_canon_loop.induct) (auto simp: dict_contains_iff)

lemma canon_idem:
  fixes d :: "'a container" and items :: "'a container"
  shows "canon (canon d) = canon d"
  and "sorted (map fst items) \<Longrightarrow> canon_loop (canon_loop items) = canon_loop items"
proof (induction d and items rule: canon_canon_loop.induct)
  case (1 d)
  have "sorted_items (canon_loop (sorted_items d)) = canon_loop (sorted_items d)"
    by (rule sorted_items_id) simp
  with 1 show ?case by simp
qed auto

lemma Container_canon: "well_formed d \<Longrightarrow> Container (canon d) = Inr (canon d)"
  using Container_well_formed(1)[of "canon d"] canon_loop_well_formed(1)[of d] canon_idem(1)[of d]
  by (simp only:)

lemma num_leaves_insort_key [simp]:
  "num_leaves (insort_key fst (k, v) d) = num_leaves_val v + num_leaves d"
  by (induction d) auto

lemma num_leaves_sorted_items [simp]: "num_leaves (sorted_items d) = num_leaves d"
  by (induction d) (auto simp: sorted_items_def)

lemma length_to_iterator:
  fixes d :: "'a container" and items :: "'a container"
  shows "length (to_iterator d) = num_leaves d"
  and "length (iter_loop items) = num_leaves items"
  by (induction d and items rule: to_iterator_iter_loop.induct) auto

lemma to_iterator_canon:
  fixes d :: "'a container" and items :: "'a container"
  shows "to_iterator (canon d) = to_iterator d"
  and "sorted (map fst items) \<Longrightarrow> to_iterator (canon_loop items) = iter_loop items"
proof (induction d and items rule: canon_canon_loop.induct)
  case (1 d)
  then show ?case by simp
next
  case 2
  then show ?case by (simp add: sorted_items_def)
next
  case (3 key x rest)
  then have "sorted_items ((key, Leaf x) # canon_loop rest) = (key, Leaf x) # canon_loop rest"
    by (intro sorted_items_id) simp
  moreover from 3 have "sorted_items (canon_loop rest) = canon_loop rest"
    by (intro sorted_items_id) simp
  ultimately show ?case using 3 by simp
next
  case (4 key c rest)
  then have "sorted_items ((key, Sub (canon c)) # canon_loop rest) = (key, Sub (canon c)) # canon_loop rest"
    by (intro sorted_items_id) simp
  moreover from 4 have "sorted_items (canon_loop rest) = canon_loop rest"
    by (intro sorted_items_id) simp
  ultimately show ?case using 4 by simp
qed

lemma from_flat_list_round_trip:
  fixes d :: "'a container" and items :: "'a container"
  shows "well_formed d \<Longrightarrow> from_flat_list d (to_flat_list d @ r) = Inr (canon d, r)"
  and "well_formed items \<Longrightarrow> fst ` set items \<inter> fst ` set nd = {} \<Longrightarrow> sorted (map fst items) \<Longrightarrow>
       ffl_loop items nd (map snd (iter_loop items) @ r) = Inr (nd @ canon_loop items, r)"
proof (induction d "to_flat_list d @ r" and items nd "map snd (iter_loop items) @ r"
       arbitrary: r and r rule: from_flat_list_ffl_loop.induct)
  case (1 self)
  have "Container (canon_loop (sorted_items self)) = Inr (canon self)"
    using Container_canon[of self] 1(2) by simp
  with 1 show ?case by (simp add: to_flat_list_def)
next
  case (2 new_dict)
  then show ?case by simp
next
  case (3 key c rest new_dict)
  have "from_flat_list c (to_flat_list c @ (map snd (iter_loop rest) @ r)) = Inr (canon c, map snd (iter_loop rest) @ r)"
    using 3 by (auto simp: to_flat_list_def)
  then show ?case using 3
    by (auto simp: to_flat_list_def dict_setitem_new dict_contains_iff)
next
  case (4 key x rest new_dict)
  then show ?case 
    by (auto simp: dict_setitem_new dict_contains_iff)
qed

lemma from_flat_list_pops:
  fixes d :: "'a container" and items :: "'a container"
  shows "well_formed d \<Longrightarrow> num_leaves d \<le> length fl \<Longrightarrow>
       \<exists>c. from_flat_list d fl = Inr (c, drop (num_leaves d) fl) \<and> well_formed c
          \<and> to_flat_list c = take (num_leaves d) fl"
  and "well_formed items \<Longrightarrow> fst ` set items \<inter> fst ` set nd = {} \<Longrightarrow> sorted (map fst items) \<Longrightarrow>
       num_leaves items \<le> length fl \<Longrightarrow>
       \<exists>new. ffl_loop items nd fl = Inr (nd @ new, drop (num_leaves items) fl)
          \<and> map fst new = map fst items \<and> well_formed new
          \<and> map snd (iter_loop new) = take (num_leaves items) fl"
proof (induction d fl and items nd fl rule: from_flat_list_ffl_loop.induct)
  case (1 self flat_list)
  then obtain new where new:
    "ffl_loop (sorted_items self) [] flat_list = Inr (new, drop (num_leaves self) flat_list)"
    "map fst new = map fst (sorted_items self)" "well_formed new"
    "map snd (iter_loop new) = take (num_leaves self) flat_list"
    by force
  have "sorted (map fst new)" using new(2) by simp
  then have "to_iterator new = iter_loop new"
    by (simp add: sorted_items_id)
  then have "to_iterator (canon new) = iter_loop new"
    using to_iterator_canon(1)[of new] by (simp only:)
  then show ?case using new
    by (simp add: Container_well_formed canon_loop_well_formed to_flat_list_def
             del: canon.simps to_iterator.simps Container.simps)
next
  case (2 new_dict flat_list)
  then show ?case by simp
next
  case (3 key c rest new_dict flat_list)
  from 3(3-) have wf: "well_formed c" "well_formed rest" "key \<notin> fst ` set rest"
    "key \<notin> fst ` set new_dict" "CHR ''/'' \<notin> set key"
    by (auto simp: dict_contains_iff)
  from 3(6) have le: "num_leaves c \<le> length flat_list" by simp
  from 3(1)[OF wf(1) le] obtain cc where cc:
    "from_flat_list c flat_list = Inr (cc, drop (num_leaves c) flat_list)" "well_formed cc"
    "to_flat_list cc = take (num_leaves c) flat_list"
    by blast
  have d: "fst ` set rest \<inter> fst ` set (dict_setitem new_dict key (Sub cc)) = {}"
    using 3(4) wf by (auto simp: dict_setitem_new)
  have s: "sorted (map fst rest)" using 3(5) by simp
  have l: "num_leaves rest \<le> length (drop (num_leaves c) flat_list)" using 3(6) by simp
  from 3(2)[OF cc(1) refl wf(2) d s l] obtain new where new:
    "ffl_loop rest (dict_setitem new_dict key (Sub cc)) (drop (num_leaves c) flat_list)
       = Inr (dict_setitem new_dict key (Sub cc) @ new,
              drop (num_leaves rest) (drop (num_leaves c) flat_list))"
    "map fst new = map fst rest" "well_formed new"
    "map snd (iter_loop new) = take (num_leaves rest) (drop (num_leaves c) flat_list)"
    by blast
  have k: "\<not> dict_contains new key"
    using wf(3) new(2) by (metis dict_contains_iff list.set_map)
  show ?case
    apply (rule exI[of _ "(key, Sub cc) # new"])
    using cc new wf k
    by (simp add: dict_setitem_new to_flat_list_def take_add add.commute del: to_iterator.simps)
next
  case (4 key x rest new_dict flat_list)
  from 4(2-) have wf: "well_formed rest" "key \<notin> fst ` set rest"
    "key \<notin> fst ` set new_dict" "CHR ''/'' \<notin> set key"
    by (auto simp: dict_contains_iff)
  from 4(5) obtain v fl' where fl: "flat_list = v # fl'" by (cases flat_list) auto
  have d: "fst ` set rest \<inter> fst ` set (dict_setitem new_dict key (Leaf v)) = {}"
    using 4(3) wf by (auto simp: dict_setitem_new)
  have s: "sorted (map fst rest)" using 4(4) by simp
  have l: "num_leaves rest \<le> length fl'" using 4(5) fl by simp
  from 4(1)[OF fl wf(1) d s l] obtain new where new:
    "ffl_loop rest (dict_setitem new_dict key (Leaf v)) fl'
       = Inr (dict_setitem new_dict key (Leaf v) @ new, drop (num_leaves rest) fl')"
    "map fst new = map fst rest" "well_formed new"
    "map snd (iter_loop new) = take (num_leaves rest) fl'"
    by blast
  have k: "\<not> dict_contains new key"
    using wf(2) new(2) by (metis dict_contains_iff list.set_map)
  show ?case
    apply (rule exI[of _ "(key, Leaf v) # new"])
    using fl new wf k
    by (simp add: dict_setitem_new)
qed

section \<open>Key chains of the leaves: auxiliary facts\<close>

lemma leaf_chains_nonempty:
  fixes d :: "'a container" and items :: "'a container"
  shows "(ks, x) \<in> set (leaf_chains d) \<Longrightarrow> ks \<noteq> []"
  and "(ks, x) \<in> set (chains_loop items) \<Longrightarrow> ks \<noteq> [] \<and> hd ks \<in> fst ` set items"
  by (induction d and items arbitrary: ks x and ks x rule: leaf_chains_chains_loop.induct)
     (auto simp: rev_image_eqI)

lemma to_iterator_leaf_chains:
  fixes d :: "'a container" and items :: "'a container"
  shows "to_iterator d = map (\<lambda>(ks, x). (last ks, x)) (leaf_chains d)"
  and "iter_loop items = map (\<lambda>(ks, x). (last ks, x)) (chains_loop items)"
proof (induction d and items rule: leaf_chains_chains_loop.induct)
  case (4 key c rest)
  have "\<And>ks x. (ks, x) \<in> set (leaf_chains c) \<Longrightarrow> ks \<noteq> []"
    by (rule leaf_chains_nonempty(1))
  with 4 show ?case by (auto simp: case_prod_unfold)
qed auto

lemma sorted_wrt_map_Cons:
  "sorted_wrt (<) (map (fst \<circ> (\<lambda>(ks, x). (key # ks, x))) l)
     = sorted_wrt (<) (map fst (l :: (string list \<times> 'a) list))"
  by (induction l) (auto simp: case_prod_unfold)

lemma leaf_chains_sorted:
  fixes d :: "'a container" and items :: "'a container"
  shows "well_formed d \<Longrightarrow> sorted_wrt (<) (map fst (leaf_chains d))"
  and "well_formed items \<Longrightarrow> sorted (map fst items) \<Longrightarrow> sorted_wrt (<) (map fst (chains_loop items))"
proof (induction d and items rule: leaf_chains_chains_loop.induct)
  case (1 d)
  then show ?case by simp
next
  case 2
  then show ?case by simp
next
  case (3 key x rest)
  have "[key] < ks" if "(ks, y) \<in> set (chains_loop rest)" for ks y
  proof -
    from leaf_chains_nonempty(2)[OF that] obtain k ks' where ks: "ks = k # ks'" "k \<in> fst ` set rest"
      by (cases ks) auto
    with 3(2,3) have "key < k" by (auto simp: dict_contains_iff order_less_le)
    with ks show ?thesis by simp
  qed
  with 3 show ?case by auto
next
  case (4 key c rest)
  have "key # ks1 < ks" if "(ks, y) \<in> set (chains_loop rest)" for ks y ks1
  proof -
    from leaf_chains_nonempty(2)[OF that] obtain k ks' where ks: "ks = k # ks'" "k \<in> fst ` set rest"
      by (cases ks) auto
    with 4(3,4) have "key < k" by (auto simp: dict_contains_iff order_less_le)
    with ks show ?thesis by simp
  qed
  with 4 show ?case by (auto simp: sorted_wrt_append sorted_wrt_map_Cons simp del: leaf_chains.simps)
qed

lemma map_of_distinct_iff:
  "distinct (map fst d) \<Longrightarrow> map_of d k = Some v \<longleftrightarrow> (k, v) \<in> set d"
  by (auto dest: map_of_SomeD)

lemma well_formed_distinct: "well_formed d \<Longrightarrow> distinct (map fst d)"
  by (simp add: well_formed_iff)

lemma leaf_chains_membership:
  fixes d :: "'a container" and items :: "'a container"
  shows "well_formed d \<Longrightarrow>
          (ks, x) \<in> set (leaf_chains d) \<longleftrightarrow> ks \<noteq> [] \<and> at_keys (Sub d) ks = Inr (Leaf x)"
  and "well_formed items \<Longrightarrow>
          (ks, x) \<in> set (chains_loop items) \<longleftrightarrow>
            (\<exists>k v ks'. ks = k # ks' \<and> (k, v) \<in> set items \<and> at_keys v ks' = Inr (Leaf x))"
proof (induction d and items arbitrary: ks x and ks x rule: leaf_chains_chains_loop.induct)
  case (1 d)
  have "(ks, x) \<in> set (leaf_chains d) \<longleftrightarrow>
      (\<exists>k v ks'. ks = k # ks' \<and> (k, v) \<in> set d \<and> at_keys v ks' = Inr (Leaf x))"
    using 1 by simp
  also have "\<dots> \<longleftrightarrow> ks \<noteq> [] \<and> at_keys (Sub d) ks = Inr (Leaf x)"
    using well_formed_distinct[OF 1(2)]
    by (cases ks) (auto simp: at_keys_step map_of_distinct_iff split: option.splits
          dest: eq_key_imp_eq_value)
  finally show ?case .
next
  case 2
  then show ?case by simp
next
  case (3 key y rest)
  then show ?case by (auto simp: at_keys_leaf split: if_splits)
next
  case (4 key c rest)
  have c: "(ks', x) \<in> set (leaf_chains c) \<longleftrightarrow> at_keys (Sub c) ks' = Inr (Leaf x)" for ks'
    using 4(1)[of ks' x] 4(3) by (cases ks') auto
  have "(ks, x) \<in> set (chains_loop ((key, Sub c) # rest)) \<longleftrightarrow>
      (\<exists>ks'. ks = key # ks' \<and> (ks', x) \<in> set (leaf_chains c)) \<or> (ks, x) \<in> set (chains_loop rest)"
    by (auto simp del: leaf_chains.simps)
  also have "\<dots> \<longleftrightarrow> (\<exists>ks'. ks = key # ks' \<and> at_keys (Sub c) ks' = Inr (Leaf x)) \<or>
      (\<exists>k v ks'. ks = k # ks' \<and> (k, v) \<in> set rest \<and> at_keys v ks' = Inr (Leaf x))"
    using 4(2)[of ks x] 4(3) c by simp
  also have "\<dots> \<longleftrightarrow> (\<exists>k v ks'. ks = k # ks' \<and> (k, v) \<in> set ((key, Sub c) # rest)
       \<and> at_keys v ks' = Inr (Leaf x))"
    by auto
  finally show ?case .
qed

section \<open>Map: auxiliary facts\<close>

lemma sorted_items_Nil_iff [simp]: "sorted_items d = [] \<longleftrightarrow> d = []"
  by (metis length_0_conv length_sort sorted_items_def)

lemma canon_loop_Nil_iff [simp]: "canon_loop items = [] \<longleftrightarrow> items = []"
  by (induction items rule: items_induct) auto

lemma canon_Nil_iff: "canon d = [] \<longleftrightarrow> d = []"
  by simp

lemma no_empty_sub_iff: "no_empty_sub d \<longleftrightarrow> (\<forall>(k, v) \<in> set d. no_empty_val v)"
  by (induction d) auto

lemma no_empty_sub_sorted_items [simp]: "no_empty_sub (sorted_items d) = no_empty_sub d"
  by (simp add: no_empty_sub_iff)

lemma mapped_identity:
  fixes d :: "'a container" and items :: "'a container"
  shows "no_empty_sub d \<Longrightarrow> mapped d (\<lambda>x kc. x) None to_apply prune_unapplied key_chain = canon d"
  and "no_empty_sub items \<Longrightarrow>
       mapped_loop items (\<lambda>x kc. x) None to_apply prune_unapplied key_chain = canon_loop items"
  by (induction d "\<lambda>(x::'a) (kc::string). x" "None :: string list option" to_apply prune_unapplied key_chain
      and items "\<lambda>(x::'a) (kc::string). x" "None :: string list option" to_apply prune_unapplied key_chain
      rule: mapped_mapped_loop.induct)
     (auto simp: selected_def Let_def simp del: mapped.simps canon.simps, auto)

lemma key_in_fst: "(k, v) \<in> set d \<Longrightarrow> k \<in> fst ` set d"
  by force

lemma mapped_loop_keys:
  "(k, v) \<in> set (mapped_loop items func key_chains to_apply prune_unapplied key_chain)
     \<Longrightarrow> k \<in> fst ` set items"
  by (induction items rule: items_induct) (auto simp: Let_def split: if_splits)

lemma mapped_canonical:
  fixes d :: "'a container" and items :: "'a container"
  shows "well_formed d \<Longrightarrow>
       well_formed (mapped d func key_chains to_apply prune_unapplied key_chain)
       \<and> canon (mapped d func key_chains to_apply prune_unapplied key_chain)
           = mapped d func key_chains to_apply prune_unapplied key_chain"
  and "well_formed items \<Longrightarrow> sorted (map fst items) \<Longrightarrow>
       well_formed (mapped_loop items func key_chains to_apply prune_unapplied key_chain)
       \<and> sorted (map fst (mapped_loop items func key_chains to_apply prune_unapplied key_chain))
       \<and> canon_loop (mapped_loop items func key_chains to_apply prune_unapplied key_chain)
           = mapped_loop items func key_chains to_apply prune_unapplied key_chain"
proof (induction d func key_chains to_apply prune_unapplied key_chain
       and items func key_chains to_apply prune_unapplied key_chain
       rule: mapped_mapped_loop.induct)
  case (1 d func key_chains to_apply prune_unapplied key_chain)
  then have *: "well_formed (mapped_loop (sorted_items d) func key_chains to_apply prune_unapplied key_chain)"
    "sorted (map fst (mapped_loop (sorted_items d) func key_chains to_apply prune_unapplied key_chain))"
    "canon_loop (mapped_loop (sorted_items d) func key_chains to_apply prune_unapplied key_chain)
       = mapped_loop (sorted_items d) func key_chains to_apply prune_unapplied key_chain"
    by auto
  from *(2) have "sorted_items (mapped_loop (sorted_items d) func key_chains to_apply prune_unapplied key_chain)
     = mapped_loop (sorted_items d) func key_chains to_apply prune_unapplied key_chain"
    by (rule sorted_items_id)
  with * show ?case by simp
next
  case (2 func key_chains to_apply prune_unapplied key_chain)
  then show ?case by simp
next
  case (3 key c rest func key_chains to_apply prune_unapplied key_chain)
  let ?rest = "mapped_loop rest func key_chains to_apply prune_unapplied key_chain"
  from 3(3,4) have r: "well_formed rest" "sorted (map fst rest)" "well_formed c"
    "key \<notin> fst ` set rest" "\<forall>k \<in> fst ` set rest. key \<le> k" "CHR ''/'' \<notin> set key"
    by (auto simp: dict_contains_iff)
  from r(4,5) have k: "key \<notin> fst ` set ?rest" "\<forall>x \<in> set ?rest. key \<le> fst x"
    by (force dest!: mapped_loop_keys)+
  from 3(1)[OF r(3)] 3(2)[OF refl r(1,2)] r(6) k show ?case
    by (auto simp: Let_def dict_contains_iff simp del: mapped.simps canon.simps)
next
  case (4 key x rest func key_chains to_apply prune_unapplied key_chain)
  let ?rest = "mapped_loop rest func key_chains to_apply prune_unapplied key_chain"
  from 4(2,3) have r: "well_formed rest" "sorted (map fst rest)"
    "key \<notin> fst ` set rest" "\<forall>k \<in> fst ` set rest. key \<le> k" "CHR ''/'' \<notin> set key"
    by (auto simp: dict_contains_iff)
  from r(3,4) have k: "key \<notin> fst ` set ?rest" "\<forall>x \<in> set ?rest. key \<le> fst x"
    by (force dest!: mapped_loop_keys)+
  from 4(1)[OF refl r(1,2)] r(5) k show ?case
    by (auto simp: Let_def dict_contains_iff)
qed

lemma map_container_mapped:
  fixes d :: "'a container" and items :: "'a container"
  shows "well_formed d \<Longrightarrow>
       map_container d func key_chains to_apply prune_unapplied key_chain
         = Inr (mapped d func key_chains to_apply prune_unapplied key_chain)"
  and "well_formed items \<Longrightarrow> sorted (map fst items) \<Longrightarrow> fst ` set items \<inter> fst ` set rd = {} \<Longrightarrow>
       map_loop items func key_chains to_apply prune_unapplied key_chain rd
         = Inr (rd @ mapped_loop items func key_chains to_apply prune_unapplied key_chain)"
proof (induction d func key_chains to_apply prune_unapplied key_chain
       and items func key_chains to_apply prune_unapplied key_chain rd
       rule: map_container_map_loop.induct)
  case (1 self func key_chains to_apply prune_unapplied key_chain)
  let ?m = "mapped self func key_chains to_apply prune_unapplied key_chain"
  from 1 have "map_loop (sorted_items self) func key_chains to_apply prune_unapplied key_chain []
      = Inr ?m"
    by simp
  moreover have "Container ?m = Inr ?m"
    using mapped_canonical(1)[OF 1(2), of func key_chains to_apply prune_unapplied key_chain]
      Container_well_formed(1)[of ?m]
    by (simp only:)
  ultimately show ?case
    by (simp del: mapped.simps Container.simps)
next
  case (2 func key_chains to_apply prune_unapplied key_chain return_dict)
  then show ?case by simp
next
  case (3 key c rest func key_chains to_apply prune_unapplied key_chain return_dict)
  let ?tkc = "if key_chain = [] then key else key_chain @ ''/'' @ key"
  let ?ret = "mapped c func key_chains to_apply prune_unapplied ?tkc"
  let ?rd = "if ?ret \<noteq> [] then dict_setitem return_dict key (Sub ?ret) else return_dict"
  from 3(3-) have r: "well_formed rest" "sorted (map fst rest)" "well_formed c"
    "key \<notin> fst ` set rest" "key \<notin> fst ` set return_dict"
    "fst ` set rest \<inter> fst ` set return_dict = {}"
    by (auto simp: dict_contains_iff)
  have c: "map_container c func key_chains to_apply prune_unapplied ?tkc = Inr ?ret"
    using 3(1)[OF refl r(3)] .
  have rd: "?rd = return_dict @ (if ?ret \<noteq> [] then [(key, Sub ?ret)] else [])"
    using r(5) by (simp add: dict_setitem_new del: mapped.simps)
  have d: "fst ` set rest \<inter> fst ` set ?rd = {}"
    unfolding rd using r(4,6) by (auto simp del: mapped.simps dest: key_in_fst)
  from 3(2)[OF refl c r(1,2) d] c rd show ?case
    by (simp add: Let_def del: mapped.simps map_container.simps)
next
  case (4 key x rest func key_chains to_apply prune_unapplied key_chain return_dict)
  let ?tkc = "if key_chain = [] then key else key_chain @ ''/'' @ key"
  from 4(4-) have r: "well_formed rest" "sorted (map fst rest)"
    "key \<notin> fst ` set rest" "key \<notin> fst ` set return_dict"
    "fst ` set rest \<inter> fst ` set return_dict = {}"
    by (auto simp: dict_contains_iff)
  have skip: "(case key_chains of None \<Rightarrow> False
             | Some kcs \<Rightarrow> (?tkc \<in> set kcs \<and> \<not> to_apply) \<or> (?tkc \<notin> set kcs \<and> to_apply))
        \<longleftrightarrow> \<not> selected key_chains to_apply ?tkc"
    by (auto simp: selected_def split: option.splits)
  have d: "fst ` set rest \<inter> fst ` set (dict_setitem return_dict key v) = {}" for v
    using r(3,4,5) by (auto simp: dict_setitem_new dest: key_in_fst)
  show ?case
  proof (cases "selected key_chains to_apply ?tkc")
    case True
    with 4(3)[OF refl _ r(1,2) d] skip r(4) show ?thesis
      by (simp add: Let_def dict_setitem_new)
  next
    case False
    show ?thesis
    proof (cases prune_unapplied)
      case True
      with 4(1)[OF refl _ _ r(1,2,5)] skip False show ?thesis
        by (simp add: Let_def)
    next
      case p: False
      with 4(2)[OF refl _ _ r(1,2) d] skip False r(4) show ?thesis
        by (simp add: Let_def dict_setitem_new)
    qed
  qed
qed

lemma map_of_sorted_items: "distinct (map fst d) \<Longrightarrow> map_of (sorted_items d) = map_of d"
  by (rule map_of_inject_set[THEN iffD2]) auto

lemma at_keys_not_leaf_Nil: "at_keys (Sub c) ks = Inr (Leaf x) \<Longrightarrow> ks \<noteq> []"
  by auto

lemma map_of_mapped_loop_other:
  "k \<notin> fst ` set items \<Longrightarrow>
   map_of (mapped_loop items func key_chains to_apply prune_unapplied key_chain) k = None"
  by (meson map_of_SomeD mapped_loop_keys not_Some_eq)

lemma mapped_lookup:
  fixes d :: "'a container" and items :: "'a container"
  shows "well_formed d \<Longrightarrow> at_keys (Sub d) ks = Inr (Leaf x) \<Longrightarrow>
       at_keys (Sub (mapped d func key_chains to_apply prune_unapplied key_chain)) ks
         = (if selected key_chains to_apply (acc_chain key_chain ks)
            then Inr (Leaf (func x (acc_chain key_chain ks)))
            else if prune_unapplied then Inl KeyError else Inr (Leaf x))"
  and "well_formed items \<Longrightarrow> map_of items k = Some v \<Longrightarrow> at_keys v ks' = Inr (Leaf x) \<Longrightarrow>
       at_keys (Sub (mapped_loop items func key_chains to_apply prune_unapplied key_chain)) (k # ks')
         = (if selected key_chains to_apply (acc_chain key_chain (k # ks'))
            then Inr (Leaf (func x (acc_chain key_chain (k # ks'))))
            else if prune_unapplied then Inl KeyError else Inr (Leaf x))"
proof (induction d func key_chains to_apply prune_unapplied key_chain
       and items func key_chains to_apply prune_unapplied key_chain
       arbitrary: ks x and k v ks' x
       rule: mapped_mapped_loop.induct)
  case (1 d func key_chains to_apply prune_unapplied key_chain)
  from 1(3) obtain k ks' where ks: "ks = k # ks'" by (cases ks) auto
  with 1(3) obtain v where v: "map_of d k = Some v" "at_keys v ks' = Inr (Leaf x)"
    by (auto simp: at_keys_step split: option.splits)
  from v(1) 1(2) have "map_of (sorted_items d) k = Some v"
    by (simp add: map_of_sorted_items well_formed_distinct)
  from 1(1)[OF _ this v(2)] 1(2) ks show ?case by simp
next
  case (2 func key_chains to_apply prune_unapplied key_chain)
  then show ?case by simp
next
  case (3 key c rest func key_chains to_apply prune_unapplied key_chain)
  let ?tkc = "if key_chain = [] then key else key_chain @ ''/'' @ key"
  let ?ret = "mapped c func key_chains to_apply prune_unapplied ?tkc"
  from 3(3) have r: "well_formed rest" "well_formed c" "key \<notin> fst ` set rest"
    by (auto simp: dict_contains_iff)
  show ?case
  proof (cases "k = key")
    case True
    with 3(4,5) have l: "at_keys (Sub c) ks' = Inr (Leaf x)" by simp
    then have ne: "ks' \<noteq> []" by (rule at_keys_not_leaf_Nil)
    have acc: "acc_chain key_chain (k # ks') = acc_chain ?tkc ks'"
      using True by simp
    note ih = 3(1)[OF r(2) l, folded acc]
    show ?thesis
    proof (cases "?ret = []")
      case e: True
      have "at_keys (Sub ?ret) ks' = Inl KeyError"
        unfolding e using ne by (cases ks') (auto simp: at_keys_step)
      moreover have "at_keys (Sub (mapped_loop ((key, Sub c) # rest) func key_chains to_apply
            prune_unapplied key_chain)) (k # ks') = Inl KeyError"
        using e True r(3)
        by (simp add: at_keys_step Let_def map_of_mapped_loop_other del: mapped.simps)
      ultimately show ?thesis using ih by (simp only:)
    next
      case False
      then have "at_keys (Sub (mapped_loop ((key, Sub c) # rest) func key_chains to_apply
            prune_unapplied key_chain)) (k # ks') = at_keys (Sub ?ret) ks'"
        using True by (simp add: at_keys_step Let_def del: mapped.simps)
      then show ?thesis using ih by (simp only:)
    qed
  next
    case False
    with 3(4) have m: "map_of rest k = Some v" by simp
    have "at_keys (Sub (mapped_loop ((key, Sub c) # rest) func key_chains to_apply
            prune_unapplied key_chain)) (k # ks')
        = at_keys (Sub (mapped_loop rest func key_chains to_apply prune_unapplied key_chain)) (k # ks')"
      using False by (simp add: at_keys_step Let_def del: mapped.simps)
    with 3(2)[OF refl r(1) m 3(5)] show ?thesis by (simp only:)
  qed
next
  case (4 key y rest func key_chains to_apply prune_unapplied key_chain)
  let ?tkc = "if key_chain = [] then key else key_chain @ ''/'' @ key"
  from 4(2) have r: "well_formed rest" "key \<notin> fst ` set rest"
    by (auto simp: dict_contains_iff)
  show ?case
  proof (cases "k = key")
    case True
    with 4(3,4) have "ks' = []" "y = x" by (auto simp: at_keys_leaf split: if_splits)
    then show ?thesis using True r(2)
      by (auto simp: at_keys_step Let_def map_of_mapped_loop_other)
  next
    case False
    with 4(3) have m: "map_of rest k = Some v" by simp
    have "at_keys (Sub (mapped_loop ((key, Leaf y) # rest) func key_chains to_apply
            prune_unapplied key_chain)) (k # ks')
        = at_keys (Sub (mapped_loop rest func key_chains to_apply prune_unapplied key_chain)) (k # ks')"
      using False by (simp add: at_keys_step Let_def)
    with 4(1)[OF refl r(1) m 4(4)] show ?thesis by (simp only:)
  qed
qed

section \<open>Multi-tree reduce: auxiliary facts\<close>

lemma at_keys_canon_leaf:
  fixes d :: "'a container" and items :: "'a container"
  shows "well_formed d \<Longrightarrow> at_keys (Sub d) ks = Inr (Leaf y) \<Longrightarrow>
       at_keys (Sub (canon d)) ks = Inr (Leaf y)"
  and "well_formed items \<Longrightarrow> map_of items k = Some v \<Longrightarrow> at_keys v ks' = Inr (Leaf y) \<Longrightarrow>
       at_keys (Sub (canon_loop items)) (k # ks') = Inr (Leaf y)"
proof (induction d and items arbitrary: ks y and k v ks' y rule: canon_canon_loop.induct)
  case (1 d)
  from 1(3) obtain k ks' where ks: "ks = k # ks'" by (cases ks) auto
  with 1(3) obtain v where v: "map_of d k = Some v" "at_keys v ks' = Inr (Leaf y)"
    by (auto simp: at_keys_step split: option.splits)
  from v(1) 1(2) have "map_of (sorted_items d) k = Some v"
    by (simp add: map_of_sorted_items well_formed_distinct)
  from 1(1)[OF _ this v(2)] 1(2) ks show ?case by simp
next
  case 2
  then show ?case by simp
next
  case (3 key x rest)
  then show ?case
    by (cases "k = key") (auto simp: at_keys_step at_keys_leaf split: if_splits)
next
  case (4 key c rest)
  show ?case
  proof (cases "k = key")
    case True
    with 4(4,5) have l: "at_keys (Sub c) ks' = Inr (Leaf y)" by simp
    from 4(3) have "well_formed c" by simp
    from 4(1)[OF this l] True show ?thesis
      by (simp add: at_keys_step del: canon.simps)
  next
    case False
    with 4(2)[of k v ks' y] 4(3,4,5) show ?thesis
      by (simp add: at_keys_step del: canon.simps)
  qed
qed

lemma getitem_no_slash: "CHR ''/'' \<notin> set key \<Longrightarrow> getitem c key = subscript c key"
  by (cases c) auto

lemma getitems_no_slashD:
  "CHR ''/'' \<notin> set key \<Longrightarrow> getitems cs key = Inr vs \<Longrightarrow> map (\<lambda>c. subscript c key) cs = map Inr vs"
  by (induction cs arbitrary: vs)
     (auto simp: getitem_no_slash split: sum.splits simp del: getitem.simps subscript.simps)

lemma getitems_no_slashI:
  "CHR ''/'' \<notin> set key \<Longrightarrow> map (\<lambda>c. subscript c key) cs = map Inr vs \<Longrightarrow> getitems cs key = Inr vs"
  by (induction cs arbitrary: vs)
     (auto simp: getitem_no_slash split: sum.splits simp del: getitem.simps subscript.simps)

lemma at_keys_Cons_subscript:
  "subscript t k = Inr u \<Longrightarrow> at_keys t (k # ks) = at_keys u ks"
  by (simp add: at_keys.simps(2))

lemma map_at_keys_Cons:
  "map (\<lambda>c. subscript c k) cs = map Inr vs \<Longrightarrow>
   map (\<lambda>t. at_keys t (k # ks)) cs = map (\<lambda>u. at_keys u ks) vs"
proof (induction cs arbitrary: vs)
  case Nil
  then show ?case by simp
next
  case (Cons c cs)
  then obtain v vs' where "vs = v # vs'" "subscript c k = Inr v"
    "map (\<lambda>c. subscript c k) cs = map Inr vs'"
    by (cases vs) auto
  with Cons.IH[of vs'] show ?case
    by (simp add: at_keys_Cons_subscript del: subscript.simps)
qed

lemma well_formed_subscript:
  "well_formed_val t \<Longrightarrow> subscript t k = Inr u \<Longrightarrow> well_formed_val u"
  by (cases t) (auto simp: dict_getitem_def well_formed_iff split: option.splits dest!: map_of_SomeD)

lemma well_formed_lookups:
  "\<forall>t\<in>set cs. well_formed_val t \<Longrightarrow> map (\<lambda>c. subscript c k) cs = map Inr vs \<Longrightarrow>
   \<forall>u\<in>set vs. well_formed_val u"
proof (induction cs arbitrary: vs)
  case Nil
  then show ?case by simp
next
  case (Cons c cs)
  then obtain v vs' where "vs = v # vs'" "subscript c k = Inr v"
    "map (\<lambda>c. subscript c k) cs = map Inr vs'"
    by (cases vs) auto
  with Cons.IH[of vs'] Cons.prems(1) show ?case
    by (auto dest: well_formed_subscript)
qed

lemma well_formed_snoc:
  "well_formed rd \<Longrightarrow> key \<notin> fst ` set rd \<Longrightarrow> CHR ''/'' \<notin> set key \<Longrightarrow> well_formed_val v \<Longrightarrow>
   well_formed (rd @ [(key, v)])"
  by (auto simp: well_formed_iff)

lemma well_formed_no_slash: "well_formed d \<Longrightarrow> key \<in> fst ` set d \<Longrightarrow> CHR ''/'' \<notin> set key"
  by (auto simp: well_formed_iff)

lemma reduce_loop_invariant:
  assumes ih_reduce: "\<And>vs v. getitems (Sub c0 # cs) key = Inr vs \<Longrightarrow> \<forall>t\<in>set vs. well_formed_val t \<Longrightarrow>
            reduce vs red = Inr v \<Longrightarrow> reduces_to red vs v"
    and ih_loop: "\<And>vs v rd'. getitems (Sub c0 # cs) key = Inr vs \<Longrightarrow> reduce vs red = Inr v \<Longrightarrow>
            well_formed (dict_setitem rd key v) \<Longrightarrow> set keys \<inter> fst ` set (dict_setitem rd key v) = {} \<Longrightarrow>
            reduce_loop keys c0 cs red (dict_setitem rd key v) = Inr rd' \<Longrightarrow>
            well_formed rd' \<and> (\<forall>k. k \<notin> set keys \<longrightarrow> map_of rd' k = map_of (dict_setitem rd key v) k) \<and>
            (\<forall>k\<in>set keys. \<exists>vs v. getitems (Sub c0 # cs) k = Inr vs \<and> map_of rd' k = Some v
                 \<and> reduces_to red vs v)"
    and wf: "well_formed c0" "\<forall>t\<in>set cs. well_formed_val t" "well_formed rd"
    and keys: "distinct (key # keys)" "set (key # keys) \<subseteq> fst ` set c0"
       "set (key # keys) \<inter> fst ` set rd = {}"
    and run: "reduce_loop (key # keys) c0 cs red rd = Inr rd'"
  shows "well_formed rd' \<and> (\<forall>k. k \<notin> set (key # keys) \<longrightarrow> map_of rd' k = map_of rd k) \<and>
       (\<forall>k\<in>set (key # keys). \<exists>vs v. getitems (Sub c0 # cs) k = Inr vs \<and> map_of rd' k = Some v
           \<and> reduces_to red vs v)"
proof -
  from run obtain vs v where
    g: "getitems (Sub c0 # cs) key = Inr vs" and r: "reduce vs red = Inr v"
    and l: "reduce_loop keys c0 cs red (dict_setitem rd key v) = Inr rd'"
    by (auto split: sum.splits simp del: getitems.simps)
  have "key \<in> fst ` set c0" using keys(2) by simp
  with wf(1) have ns: "CHR ''/'' \<notin> set key"
    by (rule well_formed_no_slash)
  from getitems_no_slashD[OF ns g] have m: "map (\<lambda>c. subscript c key) (Sub c0 # cs) = map Inr vs" .
  have "\<forall>t\<in>set (Sub c0 # cs). well_formed_val t" using wf by simp
  from well_formed_lookups[OF this m] have wvs: "\<forall>u\<in>set vs. well_formed_val u" .
  from ih_reduce[OF g wvs r] have red: "reduces_to red vs v" .
  then have wv: "well_formed_val v" by (simp add: reduces_to_def)
  have knew: "key \<notin> fst ` set rd" using keys(3) by auto
  then have ds: "dict_setitem rd key v = rd @ [(key, v)]" by (rule dict_setitem_new)
  have w': "well_formed (dict_setitem rd key v)"
    unfolding ds using wf(3) knew ns wv by (rule well_formed_snoc)
  have d': "set keys \<inter> fst ` set (dict_setitem rd key v) = {}"
    unfolding ds using keys(1,3) by auto
  from ih_loop[OF g r w' d' l] have
    c: "well_formed rd'" "\<And>k. k \<notin> set keys \<Longrightarrow> map_of rd' k = map_of (dict_setitem rd key v) k"
       "\<And>k. k \<in> set keys \<Longrightarrow> \<exists>vs v. getitems (Sub c0 # cs) k = Inr vs \<and> map_of rd' k = Some v
           \<and> reduces_to red vs v"
    by blast+
  have "map_of rd' key = Some v"
    using c(2)[of key] keys(1) by simp
  with g red have here: "\<exists>vs v. getitems (Sub c0 # cs) key = Inr vs \<and> map_of rd' key = Some v
           \<and> reduces_to red vs v"
    by blast
  have frame: "map_of rd' k = map_of rd k" if "k \<notin> set (key # keys)" for k
    using c(2)[of k] that by simp
  show ?thesis using c(1) frame here c(3) by auto
qed

lemma lookups_member:
  "map (\<lambda>c. subscript c k) cs = map Inr vs \<Longrightarrow> t \<in> set cs \<Longrightarrow>
   \<exists>u\<in>set vs. subscript t k = Inr u"
proof (induction cs arbitrary: vs)
  case Nil
  then show ?case by simp
next
  case (Cons c cs)
  then obtain v vs' where "vs = v # vs'" "subscript c k = Inr v"
    "map (\<lambda>c. subscript c k) cs = map Inr vs'"
    by (cases vs) auto
  with Cons.IH[of vs'] Cons.prems(2) show ?case
    by auto
qed

lemma reduce_Sub_step:
  assumes inv: "well_formed rd'"
       "\<And>k. k \<in> set (map fst c0) \<Longrightarrow> \<exists>vs v. getitems (Sub c0 # cs) k = Inr vs \<and> map_of rd' k = Some v
           \<and> reduces_to red vs v"
    and wf: "well_formed c0"
  shows "reduces_to red (Sub c0 # cs) (Sub (canon rd'))"
proof -
  have key: "\<exists>vs vk. map (\<lambda>c. subscript c k) (Sub c0 # cs) = map Inr vs \<and> hd vs = v0
        \<and> map_of rd' k = Some vk \<and> reduces_to red vs vk"
    if "map_of c0 k = Some v0" for k v0
  proof -
    from that have k: "k \<in> set (map fst c0)"
      by (metis image_set key_in_fst map_of_SomeD)
    then have "k \<in> fst ` set c0" by simp
    with wf have ns: "CHR ''/'' \<notin> set k"
      by (rule well_formed_no_slash)
    from inv(2)[OF k] obtain vs vk where
      g: "getitems (Sub c0 # cs) k = Inr vs" "map_of rd' k = Some vk" "reduces_to red vs vk"
      by blast
    from getitems_no_slashD[OF ns g(1)]
    have m: "map (\<lambda>c. subscript c k) (Sub c0 # cs) = map Inr vs" .
    then have "hd vs = v0" using that
      by (cases vs) (auto simp: dict_getitem_def)
    with m g show ?thesis by blast
  qed
  have cover: "\<exists>u. at_keys t ks = Inr u"
    if "t \<in> set (Sub c0 # cs)" "at_keys (Sub c0) ks = Inr v" for t ks v
  proof (cases ks)
    case Nil
    then show ?thesis by simp
  next
    case (Cons k ks')
    with that(2) obtain v0 where v0: "map_of c0 k = Some v0" "at_keys v0 ks' = Inr v"
      by (auto simp: at_keys_step split: option.splits)
    from key[OF v0(1)] obtain vs vk where
      m: "map (\<lambda>c. subscript c k) (Sub c0 # cs) = map Inr vs" "hd vs = v0"
         "reduces_to red vs vk"
      by blast
    from lookups_member[OF m(1) that(1)] obtain u where u: "u \<in> set vs" "subscript t k = Inr u"
      by blast
    from m(3) u(1) v0(2) m(2) obtain w where "at_keys u ks' = Inr w"
      unfolding reduces_to_def by blast
    with u(2) Cons show ?thesis
      by (simp add: at_keys_Cons_subscript del: subscript.simps)
  qed
  have leaf: "\<exists>vs y. map (\<lambda>t. at_keys t ks) (Sub c0 # cs) = map Inr vs \<and> red vs = Some y
                 \<and> at_keys (Sub (canon rd')) ks = Inr (Leaf y)"
    if "at_keys (Sub c0) ks = Inr (Leaf x)" for ks x
  proof -
    from that obtain k ks' where ks: "ks = k # ks'" by (cases ks) auto
    with that obtain v0 where v0: "map_of c0 k = Some v0" "at_keys v0 ks' = Inr (Leaf x)"
      by (auto simp: at_keys_step split: option.splits)
    from key[OF v0(1)] obtain vs vk where
      m: "map (\<lambda>c. subscript c k) (Sub c0 # cs) = map Inr vs" "hd vs = v0"
         "map_of rd' k = Some vk" "reduces_to red vs vk"
      by blast
    from m(4) v0(2) m(2) obtain ws y where
      w: "map (\<lambda>t. at_keys t ks') vs = map Inr ws" "red ws = Some y"
         "at_keys vk ks' = Inr (Leaf y)"
      unfolding reduces_to_def by blast
    have "map (\<lambda>t. at_keys t ks) (Sub c0 # cs) = map Inr ws"
      unfolding ks using map_at_keys_Cons[OF m(1), of ks'] w(1) by simp
    moreover have "at_keys (Sub rd') ks = Inr (Leaf y)"
      unfolding ks using m(3) w(3) by (simp add: at_keys_step)
    then have "at_keys (Sub (canon rd')) ks = Inr (Leaf y)"
      using inv(1) by (intro at_keys_canon_leaf(1))
    ultimately show ?thesis using w(2) by blast
  qed
  have w: "well_formed_val (Sub (canon rd'))"
    using inv(1) canon_loop_well_formed(1)[of rd'] by simp
  show ?thesis
    unfolding reduces_to_def list.sel
  proof (intro conjI ballI allI impI)
    show "well_formed_val (Sub (canon rd'))" by (rule w)
    show "\<exists>u. at_keys t ks = Inr u"
      if "t \<in> set (Sub c0 # cs)" "at_keys (Sub c0) ks = Inr v" for t ks v
      using that by (rule cover)
    show "\<exists>vs y. map (\<lambda>t. at_keys t ks) (Sub c0 # cs) = map Inr vs \<and> red vs = Some y
                 \<and> at_keys (Sub (canon rd')) ks = Inr (Leaf y)"
      if "at_keys (Sub c0) ks = Inr (Leaf x)" for ks x
      using that by (rule leaf)
  qed
qed

lemma reduce_reduces_to:
  fixes cs :: "'a val list" and c0 :: "'a container"
  shows "\<forall>t\<in>set cs. well_formed_val t \<Longrightarrow> reduce cs red = Inr r \<Longrightarrow> reduces_to red cs r"
  and "well_formed c0 \<Longrightarrow> \<forall>t\<in>set cs'. well_formed_val t \<Longrightarrow> well_formed rd \<Longrightarrow> distinct keys \<Longrightarrow>
       set keys \<subseteq> fst ` set c0 \<Longrightarrow> set keys \<inter> fst ` set rd = {} \<Longrightarrow>
       reduce_loop keys c0 cs' red rd = Inr rd' \<Longrightarrow>
       well_formed rd' \<and> (\<forall>k. k \<notin> set keys \<longrightarrow> map_of rd' k = map_of rd k) \<and>
       (\<forall>k\<in>set keys. \<exists>vs v. getitems (Sub c0 # cs') k = Inr vs \<and> map_of rd' k = Some v
           \<and> reduces_to red vs v)"
proof (induction cs red and keys c0 cs' red rd arbitrary: r and rd' rule: reduce_reduce_loop.induct)
  case (1 reduction)
  then show ?case by simp
next
  case (2 x cs reduction)
  then obtain y where y: "reduction (Leaf x # cs) = Some y" "r = Leaf y"
    by (auto split: option.splits)
  have nil: "at_keys (Leaf x) ks = Inr v \<Longrightarrow> ks = []" for ks v
    by (simp add: at_keys_leaf split: if_splits)
  show ?case
    unfolding reduces_to_def list.sel
  proof (intro conjI ballI allI impI)
    show "well_formed_val r" using y by simp
    show "\<exists>u. at_keys t ks = Inr u" if "at_keys (Leaf x) ks = Inr v" for t ks v
      using nil[OF that] by simp
    show "\<exists>vs ya. map (\<lambda>t. at_keys t ks) (Leaf x # cs) = map Inr vs \<and> reduction vs = Some ya
                 \<and> at_keys r ks = Inr (Leaf ya)"
      if "at_keys (Leaf x) ks = Inr (Leaf xa)" for ks xa
    proof -
      from nil[OF that] have "ks = []" .
      then have "map (\<lambda>t. at_keys t ks) (Leaf x # cs) = map Inr (Leaf x # cs)" by simp
      moreover have "at_keys r ks = Inr (Leaf y)" using y \<open>ks = []\<close> by simp
      ultimately show ?thesis using y(1) by blast
    qed
  qed
next
  case (3 container0 cs reduction)
  from 3(3) obtain rd' where
    l: "reduce_loop (map fst container0) container0 cs reduction [] = Inr rd'"
    and c: "Container rd' = Inr (projr (Container rd'))" "r = Sub (projr (Container rd'))"
    by (auto split: sum.splits simp del: Container.simps)
  from 3(2) have wf: "well_formed container0" "\<forall>t\<in>set cs. well_formed_val t" by auto
  have "well_formed rd' \<and> (\<forall>k. k \<notin> set (map fst container0) \<longrightarrow> map_of rd' k = map_of [] k) \<and>
       (\<forall>k\<in>set (map fst container0). \<exists>vs v. getitems (Sub container0 # cs) k = Inr vs
           \<and> map_of rd' k = Some v \<and> reduces_to reduction vs v)"
    using wf l by (intro 3(1)) (auto simp: well_formed_distinct)
  then have inv: "well_formed rd'"
    "\<And>k. k \<in> set (map fst container0) \<Longrightarrow> \<exists>vs v. getitems (Sub container0 # cs) k = Inr vs
           \<and> map_of rd' k = Some v \<and> reduces_to reduction vs v"
    by blast+
  from Container_well_formed(1)[OF inv(1)] c have "r = Sub (canon rd')" by simp
  with reduce_Sub_step[OF inv wf(1)] show ?case by simp
next
  case (4 container0 cs reduction return_dict)
  then show ?case by simp
next
  case (5 key keys container0 cs reduction return_dict)
  show ?case
  proof (rule reduce_loop_invariant)
    show "reduces_to reduction vs v"
      if "getitems (Sub container0 # cs) key = Inr vs" "\<forall>t\<in>set vs. well_formed_val t"
         "reduce vs reduction = Inr v" for vs v
      using that by (rule 5(1))
    show "well_formed rd' \<and> (\<forall>k. k \<notin> set keys \<longrightarrow> map_of rd' k = map_of (dict_setitem return_dict key v) k) \<and>
            (\<forall>k\<in>set keys. \<exists>vs v. getitems (Sub container0 # cs) k = Inr vs \<and> map_of rd' k = Some v
                 \<and> reduces_to reduction vs v)"
      if "getitems (Sub container0 # cs) key = Inr vs" "reduce vs reduction = Inr v"
         "well_formed (dict_setitem return_dict key v)"
         "set keys \<inter> fst ` set (dict_setitem return_dict key v) = {}"
         "reduce_loop keys container0 cs reduction (dict_setitem return_dict key v) = Inr rd'"
      for vs v rd'
      using that(1,2) 5(3,4) that(3) _ _ that(4,5)
    proof (rule 5(2))
      show "distinct keys" using 5(6) by simp
      show "set keys \<subseteq> fst ` set container0" using 5(7) by simp
    qed
    show "well_formed container0" by (rule 5(3))
    show "\<forall>t\<in>set cs. well_formed_val t" by (rule 5(4))
    show "well_formed return_dict" by (rule 5(5))
    show "distinct (key # keys)" by (rule 5(6))
    show "set (key # keys) \<subseteq> fst ` set container0" by (rule 5(7))
    show "set (key # keys) \<inter> fst ` set return_dict = {}" by (rule 5(8))
    show "reduce_loop (key # keys) container0 cs reduction return_dict = Inr rd'" by (rule 5(9))
  qed
qed

lemma agrees_items_lookup:
  "agrees_items c0 d \<Longrightarrow> (k, v0) \<in> set c0 \<Longrightarrow> \<exists>u. map_of d k = Some u \<and> agrees v0 u"
  by (induction c0) (auto split: option.splits)

lemma agrees_subscript:
  assumes "agrees (Sub c0) t" "(k, v0) \<in> set c0"
  shows "\<exists>u. subscript t k = Inr u \<and> agrees v0 u"
proof (cases t)
  case (Leaf y)
  with assms show ?thesis by simp
next
  case (Sub d)
  with assms agrees_items_lookup[of c0 d k v0] show ?thesis
    by (auto simp: dict_getitem_def)
qed

lemma agreeing_lookups:
  "\<forall>t\<in>set cs. \<exists>u. subscript t k = Inr u \<and> agrees v0 u \<Longrightarrow>
   \<exists>us. map (\<lambda>c. subscript c k) cs = map Inr us \<and> (\<forall>u\<in>set us. agrees v0 u)"
proof (induction cs)
  case Nil
  then show ?case by simp
next
  case (Cons c cs)
  then obtain us u where "map (\<lambda>c. subscript c k) cs = map Inr us" "\<forall>u\<in>set us. agrees v0 u"
    "subscript c k = Inr u" "agrees v0 u"
    by auto
  then show ?case
    by (intro exI[of _ "u # us"]) simp
qed

lemma agrees_Leaf_list: "\<forall>t\<in>set cs. agrees (Leaf x) t \<Longrightarrow> \<exists>ys. cs = map Leaf ys"
proof (induction cs)
  case Nil
  then show ?case by simp
next
  case (Cons c cs)
  then obtain ys where "cs = map Leaf ys" by auto
  moreover from Cons.prems obtain y where "c = Leaf y" by (cases c) auto
  ultimately have "c # cs = map Leaf (y # ys)" by simp
  then show ?case by (rule exI)
qed

lemma reduce_returns:
  fixes cs :: "'a val list" and c0 :: "'a container"
  assumes total: "\<forall>xs. xs \<noteq> [] \<longrightarrow> red (map Leaf xs) \<noteq> None"
  shows "cs \<noteq> [] \<Longrightarrow> \<forall>t\<in>set cs. well_formed_val t \<Longrightarrow> \<forall>t\<in>set (tl cs). agrees (hd cs) t \<Longrightarrow>
       \<exists>r. reduce cs red = Inr r"
  and "well_formed c0 \<Longrightarrow> \<forall>t\<in>set cs'. well_formed_val t \<Longrightarrow> \<forall>t\<in>set cs'. agrees (Sub c0) t \<Longrightarrow>
       well_formed rd \<Longrightarrow> distinct keys \<Longrightarrow> set keys \<subseteq> fst ` set c0 \<Longrightarrow> set keys \<inter> fst ` set rd = {} \<Longrightarrow>
       \<exists>rd'. reduce_loop keys c0 cs' red rd = Inr rd'"
  using total
proof (induction cs red and keys c0 cs' red rd rule: reduce_reduce_loop.induct)
  case (1 reduction)
  then show ?case by simp
next
  case (2 x cs reduction)
  from 2(3) obtain ys where "cs = map Leaf ys"
    using agrees_Leaf_list[of cs x] by auto
  then have "Leaf x # cs = map Leaf (x # ys)" by simp
  with 2(4) have "reduction (Leaf x # cs) \<noteq> None"
    by (metis list.distinct(1))
  then show ?case by auto
next
  case (3 container0 cs reduction)
  from 3(3,4) have wf: "well_formed container0" "\<forall>t\<in>set cs. well_formed_val t"
    "\<forall>t\<in>set cs. agrees (Sub container0) t"
    by auto
  have "\<exists>rd'. reduce_loop (map fst container0) container0 cs reduction [] = Inr rd'"
    using wf 3(5) by (intro 3(1)) (auto simp: well_formed_distinct)
  then obtain rd' where l: "reduce_loop (map fst container0) container0 cs reduction [] = Inr rd'"
    by blast
  have "well_formed rd'"
    using reduce_reduces_to(2)[OF wf(1,2) _ _ _ _ l] wf(1)
    by (auto simp: well_formed_distinct)
  from Container_well_formed(1)[OF this] l show ?case
    by (simp del: Container.simps)
next
  case (4 container0 cs reduction return_dict)
  then show ?case by simp
next
  case (5 key keys container0 cs reduction return_dict)
  from 5(8) obtain v0 where v0: "(key, v0) \<in> set container0" by auto
  have ns: "CHR ''/'' \<notin> set key"
    using 5(3) v0 by (auto simp: well_formed_iff)
  have m0: "map_of container0 key = Some v0"
    using v0 5(3) by (simp add: map_of_distinct_iff well_formed_distinct)
  have "\<forall>t\<in>set cs. \<exists>u. subscript t key = Inr u \<and> agrees v0 u"
    using 5(5) v0 by (auto intro: agrees_subscript)
  from agreeing_lookups[OF this] obtain us where
    us: "map (\<lambda>c. subscript c key) cs = map Inr us" "\<forall>u\<in>set us. agrees v0 u"
    by blast
  have m: "map (\<lambda>c. subscript c key) (Sub container0 # cs) = map Inr (v0 # us)"
    using us(1) m0 by (simp add: dict_getitem_def)
  from getitems_no_slashI[OF ns m] have g: "getitems (Sub container0 # cs) key = Inr (v0 # us)" .
  have "\<forall>t\<in>set (Sub container0 # cs). well_formed_val t" using 5(3,4) by simp
  from well_formed_lookups[OF this m] have wvs: "\<forall>u\<in>set (v0 # us). well_formed_val u" .
  have "\<exists>r. reduce (v0 # us) reduction = Inr r"
    using g _ wvs _ 5(10)
  proof (rule 5(1))
    show "v0 # us \<noteq> []" by simp
    show "\<forall>t\<in>set (tl (v0 # us)). agrees (hd (v0 # us)) t" using us(2) by simp
  qed
  then obtain v where r: "reduce (v0 # us) reduction = Inr v" by blast
  from reduce_reduces_to(1)[OF wvs r] have wv: "well_formed_val v"
    by (simp add: reduces_to_def)
  have knew: "key \<notin> fst ` set return_dict" using 5(9) by auto
  then have ds: "dict_setitem return_dict key v = return_dict @ [(key, v)]"
    by (rule dict_setitem_new)
  have w': "well_formed (dict_setitem return_dict key v)"
    unfolding ds using 5(6) knew ns wv by (rule well_formed_snoc)
  have d': "set keys \<inter> fst ` set (dict_setitem return_dict key v) = {}"
    unfolding ds using 5(7,9) by auto
  have "\<exists>rd'. reduce_loop keys container0 cs reduction (dict_setitem return_dict key v) = Inr rd'"
    using g r 5(3,4,5) w' _ _ d' 5(10)
  proof (rule 5(2))
    show "distinct keys" using 5(7) by simp
    show "set keys \<subseteq> fst ` set container0" using 5(8) by simp
  qed
  with g r show ?case
    by (simp del: getitems.simps)
qed

lemma agrees_leaf_position:
  "well_formed_val t0 \<Longrightarrow> agrees t0 t \<Longrightarrow> at_keys t0 ks = Inr (Leaf x) \<Longrightarrow>
   \<exists>y. at_keys t ks = Inr (Leaf y)"
proof (induction ks arbitrary: t0 t)
  case Nil
  then show ?case by (cases t) auto
next
  case (Cons k ks)
  from Cons.prems(3) obtain c0 v0 where c0: "t0 = Sub c0" "map_of c0 k = Some v0"
    "at_keys v0 ks = Inr (Leaf x)"
    by (cases t0) (auto simp: at_keys_step at_keys_leaf split: option.splits)
  then have in0: "(k, v0) \<in> set c0" by (auto dest: map_of_SomeD)
  from agrees_subscript[OF Cons.prems(2)[unfolded c0(1)] in0] obtain u where
    u: "subscript t k = Inr u" "agrees v0 u" by blast
  have "well_formed_val v0"
    using Cons.prems(1) c0(1) in0 by (auto simp: well_formed_iff)
  from Cons.IH[OF this u(2) c0(3)] u(1) show ?case
    by (simp add: at_keys_Cons_subscript del: subscript.simps)
qed

lemma resolving_lookups:
  "\<forall>t\<in>set cs. \<exists>u. subscript t k = Inr u \<Longrightarrow> \<exists>us. map (\<lambda>c. subscript c k) cs = map Inr us"
proof (induction cs)
  case Nil
  then show ?case by simp
next
  case (Cons c cs)
  then obtain us u where "map (\<lambda>c. subscript c k) cs = map Inr us" "subscript c k = Inr u"
    by auto
  then show ?case
    by (intro exI[of _ "u # us"]) simp
qed

lemma lookups_source:
  "map (\<lambda>c. subscript c k) cs = map Inr vs \<Longrightarrow> u \<in> set vs \<Longrightarrow>
   \<exists>t\<in>set cs. subscript t k = Inr u"
proof (induction cs arbitrary: vs)
  case Nil
  then show ?case by simp
next
  case (Cons c cs)
  then obtain v vs' where "vs = v # vs'" "subscript c k = Inr v"
    "map (\<lambda>c. subscript c k) cs = map Inr vs'"
    by (cases vs) auto
  with Cons.IH[of vs'] Cons.prems(2) show ?case
    by auto
qed

lemma reducible_step:
  assumes r: "reducible red (Sub c0 # cs)" and v0: "map_of c0 key = Some v0"
  shows "\<exists>us. map (\<lambda>c. subscript c key) (Sub c0 # cs) = map Inr (v0 # us)
            \<and> reducible red (v0 # us)"
proof -
  have k: "at_keys (Sub c0) (key # ks) = at_keys v0 ks" for ks
    using v0 by (simp add: at_keys_step)
  have "\<exists>u. subscript t key = Inr u" if "t \<in> set cs" for t
  proof -
    have "at_keys (Sub c0) [key] = Inr v0" using k[of "[]"] by simp
    with r that obtain u where "at_keys t [key] = Inr u"
      unfolding reducible_def list.sel by (meson list.set_intros(2))
    then show ?thesis
      by (cases "subscript t key") (simp_all add: at_keys.simps(2) del: subscript.simps)
  qed
  then have "\<forall>t\<in>set cs. \<exists>u. subscript t key = Inr u" by blast
  from resolving_lookups[OF this] obtain us where
    us: "map (\<lambda>c. subscript c key) cs = map Inr us" ..
  have m: "map (\<lambda>c. subscript c key) (Sub c0 # cs) = map Inr (v0 # us)"
    using us v0 by (simp add: dict_getitem_def)
  have cover: "\<exists>w. at_keys u ks = Inr w" if "u \<in> set (v0 # us)" "at_keys v0 ks = Inr v" for u ks v
  proof -
    from lookups_source[OF m that(1)] obtain t where
      t: "t \<in> set (Sub c0 # cs)" "subscript t key = Inr u" by blast
    from that(2) have "at_keys (Sub c0) (key # ks) = Inr v" by (simp only: k)
    with r t(1) obtain w where "at_keys t (key # ks) = Inr w"
      unfolding reducible_def list.sel by meson
    with t(2) show ?thesis
      by (simp add: at_keys_Cons_subscript del: subscript.simps)
  qed
  have leaf: "\<exists>vs y. map (\<lambda>t. at_keys t ks) (v0 # us) = map Inr vs \<and> red vs = Some y"
    if "at_keys v0 ks = Inr (Leaf x)" for ks x
  proof -
    from that have "at_keys (Sub c0) (key # ks) = Inr (Leaf x)" by (simp only: k)
    with r obtain vs y where
      "map (\<lambda>t. at_keys t (key # ks)) (Sub c0 # cs) = map Inr vs" "red vs = Some y"
      unfolding reducible_def list.sel by meson
    then show ?thesis
      unfolding map_at_keys_Cons[OF m, of ks] by blast
  qed
  have "reducible red (v0 # us)"
    unfolding reducible_def list.sel
  proof (intro conjI ballI allI impI)
    show "\<exists>w. at_keys u ks = Inr w" if "u \<in> set (v0 # us)" "at_keys v0 ks = Inr v" for u ks v
      using that by (rule cover)
    show "\<exists>vs y. map (\<lambda>t. at_keys t ks) (v0 # us) = map Inr vs \<and> red vs = Some y"
      if "at_keys v0 ks = Inr (Leaf x)" for ks x
      using that by (rule leaf)
  qed
  with m show ?thesis by blast
qed

lemma reducible_returns:
  fixes cs :: "'a val list" and c0 :: "'a container"
  shows "cs \<noteq> [] \<Longrightarrow> \<forall>t\<in>set cs. well_formed_val t \<Longrightarrow> reducible red cs \<Longrightarrow>
       \<exists>r. reduce cs red = Inr r"
  and "well_formed c0 \<Longrightarrow> \<forall>t\<in>set cs'. well_formed_val t \<Longrightarrow> reducible red (Sub c0 # cs') \<Longrightarrow>
       well_formed rd \<Longrightarrow> distinct keys \<Longrightarrow> set keys \<subseteq> fst ` set c0 \<Longrightarrow> set keys \<inter> fst ` set rd = {} \<Longrightarrow>
       \<exists>rd'. reduce_loop keys c0 cs' red rd = Inr rd'"
proof (induction cs red and keys c0 cs' red rd rule: reduce_reduce_loop.induct)
  case (1 reduction)
  then show ?case by simp
next
  case (2 x cs reduction)
  have "at_keys (Leaf x) [] = Inr (Leaf x)" by simp
  with 2(3) obtain vs y where
    "map (\<lambda>t. at_keys t []) (Leaf x # cs) = map Inr vs" "reduction vs = Some y"
    unfolding reducible_def list.sel by meson
  moreover have "map (\<lambda>t. at_keys t []) (Leaf x # cs) = map Inr (Leaf x # cs)" by simp
  ultimately have "reduction (Leaf x # cs) = Some y"
    by (metis inj_Inr inj_map_eq_map)
  then show ?case by simp
next
  case (3 container0 cs reduction)
  from 3(3) have wf: "well_formed container0" "\<forall>t\<in>set cs. well_formed_val t"
    by auto
  have "\<exists>rd'. reduce_loop (map fst container0) container0 cs reduction [] = Inr rd'"
    using wf 3(4) by (intro 3(1)) (auto simp: well_formed_distinct)
  then obtain rd' where l: "reduce_loop (map fst container0) container0 cs reduction [] = Inr rd'"
    by blast
  have "well_formed rd'"
    using reduce_reduces_to(2)[OF wf(1,2) _ _ _ _ l] wf(1)
    by (auto simp: well_formed_distinct)
  from Container_well_formed(1)[OF this] l show ?case
    by (simp del: Container.simps)
next
  case (4 container0 cs reduction return_dict)
  then show ?case by simp
next
  case (5 key keys container0 cs reduction return_dict)
  from 5(8) obtain v0 where v0: "(key, v0) \<in> set container0" by auto
  have ns: "CHR ''/'' \<notin> set key"
    using 5(3) v0 by (auto simp: well_formed_iff)
  have m0: "map_of container0 key = Some v0"
    using v0 5(3) by (simp add: map_of_distinct_iff well_formed_distinct)
  from reducible_step[OF 5(5) m0] obtain us where
    m: "map (\<lambda>c. subscript c key) (Sub container0 # cs) = map Inr (v0 # us)"
    and rs: "reducible reduction (v0 # us)"
    by blast
  from getitems_no_slashI[OF ns m] have g: "getitems (Sub container0 # cs) key = Inr (v0 # us)" .
  have "\<forall>t\<in>set (Sub container0 # cs). well_formed_val t" using 5(3,4) by simp
  from well_formed_lookups[OF this m] have wvs: "\<forall>u\<in>set (v0 # us). well_formed_val u" .
  have "\<exists>r. reduce (v0 # us) reduction = Inr r"
    using g _ wvs rs
  proof (rule 5(1))
    show "v0 # us \<noteq> []" by simp
  qed
  then obtain v where r: "reduce (v0 # us) reduction = Inr v" by blast
  from reduce_reduces_to(1)[OF wvs r] have wv: "well_formed_val v"
    by (simp add: reduces_to_def)
  have knew: "key \<notin> fst ` set return_dict" using 5(9) by auto
  then have ds: "dict_setitem return_dict key v = return_dict @ [(key, v)]"
    by (rule dict_setitem_new)
  have w': "well_formed (dict_setitem return_dict key v)"
    unfolding ds using 5(6) knew ns wv by (rule well_formed_snoc)
  have d': "set keys \<inter> fst ` set (dict_setitem return_dict key v) = {}"
    unfolding ds using 5(7,9) by auto
  have "\<exists>rd'. reduce_loop keys container0 cs reduction (dict_setitem return_dict key v) = Inr rd'"
    using g r 5(3,4,5) w' _ _ d'
  proof (rule 5(2))
    show "distinct keys" using 5(7) by simp
    show "set keys \<subseteq> fst ` set container0" using 5(8) by simp
  qed
  with g r show ?case
    by (simp del: getitems.simps)
qed
section \<open>Equality of containers: auxiliary facts\<close>

lemma at_keys_canon:
  fixes d :: "'a container" and items :: "'a container"
  shows "well_formed d \<Longrightarrow> resolved (at_keys (Sub (canon d)) ks) = resolved (at_keys (Sub d) ks)"
  and "well_formed items \<Longrightarrow>
       resolved (at_keys (Sub (canon_loop items)) (k # ks')) = resolved (at_keys (Sub items) (k # ks'))"
proof (induction d and items arbitrary: ks and k ks' rule: canon_canon_loop.induct)
  case (1 d)
  show ?case
  proof (cases ks)
    case Nil
    then show ?thesis by simp
  next
    case (Cons k ks')
    have "map_of (sorted_items d) = map_of d"
      using 1(2) by (simp add: map_of_sorted_items well_formed_distinct)
    then have "at_keys (Sub (sorted_items d)) (k # ks') = at_keys (Sub d) (k # ks')"
      by (simp add: at_keys_step)
    with 1(1)[of k ks'] 1(2) Cons show ?thesis by simp
  qed
next
  case 2
  then show ?case by simp
next
  case (3 key x rest)
  then show ?case
    by (cases "k = key") (auto simp: at_keys_step)
next
  case (4 key c rest)
  show ?case
  proof (cases "k = key")
    case True
    from 4(3) have "well_formed c" by simp
    from 4(1)[OF this, of ks'] True show ?thesis
      by (simp add: at_keys_step del: canon.simps)
  next
    case False
    with 4(2)[of k ks'] 4(3) show ?thesis
      by (simp add: at_keys_step del: canon.simps)
  qed
qed

lemma same_dict_resolved:
  assumes "well_formed a" "well_formed b" "same_dict a b"
  shows "resolved (at_keys (Sub a) ks) = resolved (at_keys (Sub b) ks)"
  using at_keys_canon(1)[OF assms(1), of ks] at_keys_canon(1)[OF assms(2), of ks] assms(3)
  by (simp add: same_dict_def del: canon.simps)

section \<open>Consensus shape: auxiliary facts\<close>

lemma foldl_map2_nth:
  "j < length r \<Longrightarrow> \<forall>row\<in>set rs. length row = length r \<Longrightarrow>
   length (foldl (map2 g) r rs) = length r \<and>
   foldl (map2 g) r rs ! j = foldl g (r ! j) (map (\<lambda>row. row ! j) rs)"
proof (induction rs arbitrary: r)
  case Nil
  then show ?case by simp
next
  case (Cons a rs)
  have l: "length (map2 g r a) = length r" using Cons.prems by simp
  have "j < length (map2 g r a)" "\<forall>row\<in>set rs. length row = length (map2 g r a)"
    using Cons.prems l by auto
  from Cons.IH[OF this] Cons.prems l show ?case
    by simp
qed

lemma Min_length_le: "row \<in> set rows \<Longrightarrow> Min (set (map length rows)) \<le> length row"
  by simp

lemma consensus_unfold:
  "rows \<noteq> [] \<Longrightarrow> consensus rnd rows =
     (let m = Min (set (map length rows));
          arr = map (\<lambda>row. map adjust (take m row)) rows;
          quot = map (\<lambda>row. map2 (true_divide rnd) row (hd arr)) arr;
          prod = foldl (map2 (multiply rnd)) (hd quot) (tl quot)
      in Inr (map2 (\<lambda>p d. if p = 1 then Some (int_of_float (rnd (of_int d))) else None) prod (hd arr)))"
proof -
  have a: "(\<lambda>d. if d = 0 then - 1 else d) = adjust"
    by (auto simp: adjust_def)
  have z: "map2 (\<lambda>m d. if m then Some (int_of_float (rnd (of_int d))) else None) (map (\<lambda>p. p = 1) ps) ds
      = map2 (\<lambda>p d. if p = 1 then Some (int_of_float (rnd (of_int d))) else None) ps ds" for ps :: "rat list" and ds
    by (simp add: zip_map1 case_prod_unfold)
  show ?thesis if "rows \<noteq> []"
    using that unfolding consensus_def Let_def a z by (simp only: if_False map_map comp_def)
qed

lemma consensus_columns:
  assumes ne: "rows \<noteq> []" and j: "j < Min (set (map length rows))"
  shows "\<exists>sh. consensus rnd rows = Inr sh \<and> length sh = Min (set (map length rows))
       \<and> sh ! j = column_value rnd (map (\<lambda>row. adjust (row ! j)) rows)"
proof -
  define m where "m = Min (set (map length rows))"
  define arr where "arr = map (\<lambda>row. map adjust (take m row)) rows"
  define quot where "quot = map (\<lambda>row. map2 (true_divide rnd) row (hd arr)) arr"
  define prod where "prod = foldl (map2 (multiply rnd)) (hd quot) (tl quot)"
  define sh where "sh = map2 (\<lambda>p d. if p = 1 then Some (int_of_float (rnd (of_int d))) else None) prod (hd arr)"
  define col where "col = map (\<lambda>row. adjust (row ! j)) rows"
  have c: "consensus rnd rows = Inr sh"
    unfolding consensus_unfold[OF ne] Let_def sh_def prod_def quot_def arr_def m_def ..
  have mle: "m \<le> length row" if "row \<in> set rows" for row
    unfolding m_def using that by simp
  have jm: "j < m" using j by (simp only: m_def)
  have arr_ne: "arr \<noteq> []" using ne by (simp add: arr_def)
  have quot_ne: "quot \<noteq> []" using arr_ne by (simp add: quot_def)
  have len: "length row = m" if "row \<in> set arr" for row
    using that mle by (auto simp: arr_def)
  have lfirst: "length (hd arr) = m"
    using len[of "hd arr"] arr_ne by simp
  have lq: "length row = m" if "row \<in> set quot" for row
    using that len lfirst by (auto simp: quot_def)
  have lhq: "length (hd quot) = m"
    using lq[of "hd quot"] quot_ne by simp
  have jq: "j < length (hd quot)" using jm lhq by simp
  have tlq: "\<forall>row\<in>set (tl quot). length row = length (hd quot)"
    using lq lhq quot_ne by (metis list.set_sel(2))
  from foldl_map2_nth[OF jq tlq, of "multiply rnd"] have
    lp: "length prod = m"
    and pj: "prod ! j = foldl (multiply rnd) (hd quot ! j) (map (\<lambda>row. row ! j) (tl quot))"
    using lhq by (simp_all add: prod_def)
  have lsh: "length sh = m" using lp lfirst by (simp add: sh_def)
  have arr_col: "map (\<lambda>row. row ! j) arr = col"
    unfolding arr_def col_def using jm mle by (simp add: comp_def)
  have first_j: "hd arr ! j = hd col"
    using arr_col arr_ne by (metis hd_map)
  have qcol: "map (\<lambda>row. row ! j) quot = map (\<lambda>x. true_divide rnd x (hd col)) col"
  proof -
    have "map (\<lambda>row. row ! j) quot = map (\<lambda>row. true_divide rnd (row ! j) (hd arr ! j)) arr"
      unfolding quot_def using jm len lfirst by (simp add: comp_def)
    also have "\<dots> = map (\<lambda>x. true_divide rnd x (hd col)) (map (\<lambda>row. row ! j) arr)"
      unfolding first_j by (simp add: comp_def)
    finally show ?thesis unfolding arr_col .
  qed
  have hq: "hd quot ! j = hd (map (\<lambda>row. row ! j) quot)"
    using quot_ne by (simp add: hd_map)
  have tq: "map (\<lambda>row. row ! j) (tl quot) = tl (map (\<lambda>row. row ! j) quot)"
    by (simp add: map_tl)
  have "sh ! j = (if prod ! j = 1 then Some (int_of_float (rnd (of_int (hd arr ! j)))) else None)"
    using jm lp lfirst by (simp add: sh_def)
  also have "\<dots> = column_value rnd col"
    unfolding pj hq tq qcol first_j column_value_def Let_def ..
  finally have "sh ! j = column_value rnd col" .
  with c lsh show ?thesis
    unfolding m_def col_def by blast
qed

lemma length_foldl_map2:
  "\<forall>row\<in>set rs. length row = length r \<Longrightarrow> length (foldl (map2 g) r rs) = length r"
  by (induction rs arbitrary: r) auto

lemma consensus_length:
  assumes ne: "rows \<noteq> []"
  shows "\<exists>sh. consensus rnd rows = Inr sh \<and> length sh = Min (set (map length rows))"
proof -
  define m where "m = Min (set (map length rows))"
  define arr where "arr = map (\<lambda>row. map adjust (take m row)) rows"
  define quot where "quot = map (\<lambda>row. map2 (true_divide rnd) row (hd arr)) arr"
  define prod where "prod = foldl (map2 (multiply rnd)) (hd quot) (tl quot)"
  define sh where "sh = map2 (\<lambda>p d. if p = 1 then Some (int_of_float (rnd (of_int d))) else None) prod (hd arr)"
  have c: "consensus rnd rows = Inr sh"
    unfolding consensus_unfold[OF ne] Let_def sh_def prod_def quot_def arr_def m_def ..
  have mle: "m \<le> length row" if "row \<in> set rows" for row
    unfolding m_def using that by simp
  have arr_ne: "arr \<noteq> []" using ne by (simp add: arr_def)
  have quot_ne: "quot \<noteq> []" using arr_ne by (simp add: quot_def)
  have len: "length row = m" if "row \<in> set arr" for row
    using that mle by (auto simp: arr_def)
  have lfirst: "length (hd arr) = m"
    using len[of "hd arr"] arr_ne by simp
  have lq: "length row = m" if "row \<in> set quot" for row
    using that len lfirst by (auto simp: quot_def)
  have lhq: "length (hd quot) = m"
    using lq[of "hd quot"] quot_ne by simp
  have tlq: "\<forall>row\<in>set (tl quot). length row = length (hd quot)"
    using lq lhq quot_ne by (metis list.set_sel(2))
  have "length prod = m"
    unfolding prod_def using length_foldl_map2[OF tlq] lhq by simp
  then have "length sh = m" using lfirst by (simp add: sh_def)
  with c show ?thesis unfolding m_def by blast
qed

lemma rounding_facts:
  assumes "float64_rounding rnd"
  shows "rnd 0 = 0" "rnd 1 = 1" "\<And>n::int. \<bar>n\<bar> \<le> 2 ^ 53 \<Longrightarrow> rnd (of_int n) = of_int n"
    "\<And>x y. x \<le> y \<Longrightarrow> rnd x \<le> rnd y" "\<And>x. rnd (rnd x) = rnd x"
    "\<And>x. rnd x = 1 \<Longrightarrow> \<bar>x - 1\<bar> \<le> 1 / 2 ^ 53"
proof -
  from assms have e: "\<And>n::int. \<bar>n\<bar> \<le> 2 ^ 53 \<Longrightarrow> rnd (of_int n) = of_int n"
    unfolding float64_rounding_def by blast
  from e[of 0] show "rnd 0 = 0" by simp
  from e[of 1] show "rnd 1 = 1" by simp
  show "\<And>n::int. \<bar>n\<bar> \<le> 2 ^ 53 \<Longrightarrow> rnd (of_int n) = of_int n" by (rule e)
  from assms show "\<And>x y. x \<le> y \<Longrightarrow> rnd x \<le> rnd y"
    unfolding float64_rounding_def by blast
  from assms show "\<And>x. rnd (rnd x) = rnd x"
    unfolding float64_rounding_def by blast
  from assms show "\<And>x. rnd x = 1 \<Longrightarrow> \<bar>x - 1\<bar> \<le> 1 / 2 ^ 53"
    unfolding float64_rounding_def by blast
qed

lemma foldl_multiply_ones:
  "rnd 1 = 1 \<Longrightarrow> \<forall>q\<in>set qs. q = 1 \<Longrightarrow> foldl (multiply rnd) 1 qs = 1"
  by (induction qs) (auto simp: multiply_def)

lemma column_value_agree:
  assumes r: "float64_rounding rnd" and ne: "col \<noteq> []" and eq: "\<forall>x\<in>set col. x = d"
    and d: "d \<noteq> 0" "\<bar>d\<bar> \<le> 2 ^ 53"
  shows "column_value rnd col = Some d"
proof -
  have hd: "hd col = d" using ne eq by (cases col) auto
  have q: "true_divide rnd d d = 1"
    using rounding_facts(2,3)[OF r] d by (simp add: true_divide_def)
  define qs where "qs = map (\<lambda>x. true_divide rnd x (hd col)) col"
  have all1: "\<forall>q\<in>set qs. q = 1"
    using eq q hd by (auto simp: qs_def)
  have qne: "qs \<noteq> []" using ne by (simp add: qs_def)
  then have "hd qs = 1" "\<forall>q\<in>set (tl qs). q = 1"
    using all1 by (auto dest: list.set_sel)
  then have "foldl (multiply rnd) (hd qs) (tl qs) = 1"
    using foldl_multiply_ones[of rnd "tl qs"] rounding_facts(2)[OF r] by simp
  moreover have "int_of_float (rnd (of_int d)) = d"
    using rounding_facts(3)[OF r d(2)] by (simp add: int_of_float_def)
  ultimately show ?thesis
    unfolding column_value_def Let_def unfolding qs_def[symmetric] unfolding hd by simp
qed

lemma quotient_not_one:
  assumes r: "float64_rounding rnd" and p: "0 < p" "p < 2 ^ 53" and q: "0 < q" "q < 2 ^ 53"
    and ne: "p \<noteq> (q::int)"
  shows "true_divide rnd p q \<noteq> 1"
proof
  assume "true_divide rnd p q = 1"
  then have "rnd (of_int p / of_int q) = 1"
    using rounding_facts(3)[OF r, of p] rounding_facts(3)[OF r, of q] p q
    by (simp add: true_divide_def)
  from rounding_facts(6)[OF r this] have le: "\<bar>of_int p / of_int q - 1\<bar> \<le> (1::rat) / 2 ^ 53" .
  have "\<bar>of_int p / of_int q - 1\<bar> = \<bar>(of_int (p - q) :: rat)\<bar> / of_int q"
    using q(1) by (simp add: field_simps abs_divide flip: abs_of_pos)
  also have "\<bar>(of_int (p - q) :: rat)\<bar> = of_int \<bar>p - q\<bar>" by simp
  finally have "\<bar>of_int p / of_int q - 1\<bar> = (of_int \<bar>p - q\<bar> :: rat) / of_int q" .
  moreover have "(1::rat) \<le> of_int \<bar>p - q\<bar>"
    using ne by (metis abs_zero dual_order.refl eq_iff_diff_eq_0 of_int_1 of_int_le_iff zero_less_abs_iff zless_imp_add1_zle add_0)
  then have "(1::rat) / of_int q \<le> of_int \<bar>p - q\<bar> / of_int q"
    using q(1) by (simp add: divide_right_mono)
  moreover have "(1::rat) / 2 ^ 53 < 1 / of_int q"
  proof -
    have "(of_int q :: rat) < 2 ^ 53"
      using q(2) by (metis of_int_less_iff of_int_numeral of_int_power)
    then show ?thesis using q(1) by (simp add: field_simps)
  qed
  ultimately show False using le by linarith
qed

lemma foldl_multiply_replicate_one:
  "rnd s = s \<Longrightarrow> foldl (multiply rnd) s (replicate b 1) = s"
  by (induction b) (auto simp: multiply_def)

lemma foldl_multiply_ones_then:
  assumes "rnd 1 = 1" "rnd s = s"
  shows "foldl (multiply rnd) 1 (replicate n 1 @ [s] @ replicate b 1) = s"
proof -
  have "foldl (multiply rnd) 1 (replicate n 1) = 1"
    using foldl_multiply_replicate_one[of rnd 1 n] assms(1) by simp
  then show ?thesis
    using assms foldl_multiply_replicate_one[of rnd s b] by (simp add: multiply_def)
qed

lemma foldl_multiply_below:
  assumes mono: "\<And>x y. x \<le> y \<Longrightarrow> rnd x \<le> rnd y" and z: "rnd 0 = 0" and idem: "rnd r = r"
    and r: "0 \<le> r" "r \<le> 1"
  shows "0 \<le> acc \<Longrightarrow> acc \<le> r \<Longrightarrow>
         0 \<le> foldl (multiply rnd) acc (replicate b r) \<and> foldl (multiply rnd) acc (replicate b r) \<le> r"
proof (induction b arbitrary: acc)
  case 0
  then show ?case by simp
next
  case (Suc b)
  have "0 \<le> acc * r" using Suc.prems r by simp
  then have lo: "0 \<le> multiply rnd acc r"
    using mono[of 0 "acc * r"] z by (simp add: multiply_def)
  have "acc * r \<le> r"
    using Suc.prems r by (metis dual_order.trans mult_left_le_one_le)
  then have hi: "multiply rnd acc r \<le> r"
    using mono[of "acc * r" r] idem by (simp add: multiply_def)
  from Suc.IH[OF lo hi] show ?case by simp
qed

lemma foldl_multiply_above:
  assumes mono: "\<And>x y. x \<le> y \<Longrightarrow> rnd x \<le> rnd y" and idem: "rnd r = r"
    and r: "1 \<le> r"
  shows "r \<le> acc \<Longrightarrow> r \<le> foldl (multiply rnd) acc (replicate b r)"
proof (induction b arbitrary: acc)
  case 0
  then show ?case by simp
next
  case (Suc b)
  have "1 \<le> acc" "0 \<le> r" using Suc.prems r by simp_all
  from mult_right_mono[OF this] have "r \<le> acc * r" by simp
  then have "r \<le> multiply rnd acc r"
    using mono[of r "acc * r"] idem by (simp add: multiply_def)
  from Suc.IH[OF this] show ?case by simp
qed

lemma column_value_one_differs:
  assumes r: "float64_rounding rnd" and p: "0 < p" "p < 2 ^ 53" and q: "0 < q" "q < 2 ^ 53"
    and ne: "p \<noteq> (q::int)"
    and col: "col = replicate a p @ [q] @ replicate b p" and ab: "0 < a + b"
  shows "column_value rnd col = None"
proof -
  note rf = rounding_facts[OF r]
  define qs where "qs = map (\<lambda>x. true_divide rnd x (hd col)) col"
  have idem: "rnd (true_divide rnd x y) = true_divide rnd x y" for x y
    by (simp add: true_divide_def rf(5))
  have one: "true_divide rnd x x = 1" if "0 < x" "x < 2 ^ 53" for x :: int
    using that rf(2) rf(3)[of x] by (simp add: true_divide_def)
  have "foldl (multiply rnd) (hd qs) (tl qs) \<noteq> 1"
  proof (cases a)
    case 0
    with ab obtain b' where b: "b = Suc b'" by (cases b) auto
    define t where "t = true_divide rnd p q"
    have t1: "t \<noteq> 1" unfolding t_def using r p q ne by (rule quotient_not_one)
    have it: "rnd t = t" unfolding t_def by (rule idem)
    have tq: "t = rnd (of_int p / of_int q)"
      using rf(3)[of p] rf(3)[of q] p q by (simp add: t_def true_divide_def)
    have qs: "hd qs = 1" "tl qs = replicate b t"
      using 0 col one[OF q] by (simp_all add: qs_def t_def)
    have first: "foldl (multiply rnd) 1 (replicate b t) = foldl (multiply rnd) t (replicate b' t)"
      using b it by (simp add: multiply_def)
    show ?thesis
    proof (cases "p < q")
      case True
      then have "(of_int p :: rat) / of_int q \<le> 1" "0 \<le> (of_int p :: rat) / of_int q"
        using p q by simp_all
      then have t01: "t \<le> 1" "0 \<le> t"
        using rf(4)[of "of_int p / of_int q" 1] rf(4)[of 0 "of_int p / of_int q"] rf(1,2) tq
        by simp_all
      have "0 \<le> foldl (multiply rnd) t (replicate b' t) \<and> foldl (multiply rnd) t (replicate b' t) \<le> t"
        using rf(4) rf(1) it t01(2,1) t01(2) order_refl by (rule foldl_multiply_below)
      moreover have "t < 1" using t01(1) t1 by simp
      ultimately show ?thesis using qs first by simp
    next
      case False
      then have "1 \<le> (of_int p :: rat) / of_int q"
        using p q ne by simp
      then have t1': "1 \<le> t"
        using rf(4)[of 1 "of_int p / of_int q"] rf(2) tq by simp
      have "t \<le> foldl (multiply rnd) t (replicate b' t)"
        using rf(4) it t1' order_refl by (rule foldl_multiply_above)
      moreover have "1 < t" using t1' t1 by simp
      ultimately show ?thesis using qs first by simp
    qed
  next
    case (Suc a')
    define t where "t = true_divide rnd q p"
    have t1: "t \<noteq> 1" unfolding t_def using r q p ne[symmetric] by (rule quotient_not_one)
    have it: "rnd t = t" unfolding t_def by (rule idem)
    have qs: "hd qs = 1" "tl qs = replicate a' 1 @ [t] @ replicate b 1"
      using Suc col one[OF p] by (simp_all add: qs_def t_def map_replicate_const)
    from foldl_multiply_ones_then[of rnd t a' b, OF rf(2) it] qs t1 show ?thesis by simp
  qed
  then show ?thesis
    unfolding column_value_def Let_def unfolding qs_def[symmetric] by simp
qed

lemma shape_or_len_kc: "shape_or_len x kc = shape_or_len x []"
  by (cases x) auto

lemma iter_loop_append: "iter_loop (xs @ ys) = iter_loop xs @ iter_loop ys"
  by (induction xs rule: items_induct) (auto simp del: to_iterator.simps)

lemma to_iterator_sorted: "sorted (map fst d) \<Longrightarrow> to_iterator d = iter_loop d"
  by (simp add: sorted_items_id)

lemma to_flat_list_mapped:
  fixes d :: "'a container" and items :: "'a container"
  shows "\<forall>x kc. f x kc = g x \<Longrightarrow> well_formed d \<Longrightarrow>
       map snd (to_iterator (mapped d f None to_apply prune_unapplied key_chain))
         = map g (map snd (to_iterator d))"
  and "\<forall>x kc. f x kc = g x \<Longrightarrow> well_formed items \<Longrightarrow> sorted (map fst items) \<Longrightarrow>
       map snd (iter_loop (mapped_loop items f None to_apply prune_unapplied key_chain))
         = map g (map snd (iter_loop items))"
proof (induction d f "None :: string list option" to_apply prune_unapplied key_chain
       and items f "None :: string list option" to_apply prune_unapplied key_chain
       rule: mapped_mapped_loop.induct)
  case (1 d func to_apply prune_unapplied key_chain)
  have s: "sorted (map fst (mapped_loop (sorted_items d) func None to_apply prune_unapplied key_chain))"
    using mapped_canonical(2)[of "sorted_items d" func None to_apply prune_unapplied key_chain] 1(3)
    by simp
  have "to_iterator (mapped d func None to_apply prune_unapplied key_chain)
      = iter_loop (mapped_loop (sorted_items d) func None to_apply prune_unapplied key_chain)"
    using to_iterator_sorted[OF s] by simp
  with 1 show ?case by simp
next
  case (2 func to_apply prune_unapplied key_chain)
  then show ?case by simp
next
  case (3 key c rest func to_apply prune_unapplied key_chain)
  let ?tkc = "if key_chain = [] then key else key_chain @ ''/'' @ key"
  let ?ret = "mapped c func None to_apply prune_unapplied ?tkc"
  from 3(4,5) have r: "well_formed rest" "sorted (map fst rest)" "well_formed c"
    by auto
  have "iter_loop (if ?ret \<noteq> [] then [(key, Sub ?ret)] else []) = to_iterator ?ret"
    by (simp add: sorted_items_def del: mapped.simps)
  with 3(1)[OF 3(3) r(3)] 3(2)[OF refl 3(3) r(1,2)] show ?case
    by (simp add: Let_def iter_loop_append del: mapped.simps to_iterator.simps)
next
  case (4 key x rest func to_apply prune_unapplied key_chain)
  from 4(3,4) have r: "well_formed rest" "sorted (map fst rest)"
    by auto
  from 4(1)[OF refl 4(2) r] 4(2) show ?case
    by (simp add: Let_def selected_def)
qed

lemma those_ints: "those (map (\<lambda>x. Some (int x)) s) = Some (map int s)"
  by (induction s) auto

lemma sub_shapes_ranked:
  "map snd kvs = map (\<lambda>x. shape_or_len x []) ls \<Longrightarrow>
   \<exists>vs. truthy_values kvs = Inr vs \<and> those (map ints_of_pyval vs) = Some (List.map_filter rank_shape ls)"
proof (induction ls arbitrary: kvs)
  case Nil
  then show ?case by (simp add: List.map_filter_simps)
next
  case (Cons x ls)
  then obtain k kvs' where kvs: "kvs = (k, shape_or_len x []) # kvs'"
    "map snd kvs' = map (\<lambda>x. shape_or_len x []) ls"
    by (cases kvs) auto
  from Cons.IH[OF kvs(2)] obtain vs where
    vs: "truthy_values kvs' = Inr vs" "those (map ints_of_pyval vs) = Some (List.map_filter rank_shape ls)"
    by blast
  show ?case
  proof (cases x)
    case (Array s)
    then show ?thesis using kvs vs
      by (cases s) (auto simp: List.map_filter_simps those_ints comp_def)
  qed (use kvs vs in \<open>auto simp: List.map_filter_simps\<close>)
qed

lemma get_shape_consensus:
  assumes "well_formed T" "T \<noteq> []"
  shows "get_shape rnd T = consensus rnd (ranked_shapes T)"
proof -
  let ?m = "mapped T shape_or_len None True False []"
  have m: "map_container T shape_or_len None True False [] = Inr ?m"
    using assms(1) by (rule map_container_mapped(1))
  have "map snd (to_iterator ?m) = map (\<lambda>x. shape_or_len x []) (to_flat_list T)"
    unfolding to_flat_list_def
    using to_flat_list_mapped(1)[of shape_or_len "\<lambda>x. shape_or_len x []" T True False "[]"]
      shape_or_len_kc assms(1) by blast
  from sub_shapes_ranked[OF this] obtain vs where
    "truthy_values (to_iterator ?m) = Inr vs"
    "those (map ints_of_pyval vs) = Some (ranked_shapes T)"
    unfolding ranked_shapes_def by blast
  with m assms(2) show ?thesis
    by (simp add: get_shape_def del: mapped.simps map_container.simps to_iterator.simps)
qed

lemma rank_shape_nonneg: "rank_shape x = Some s \<Longrightarrow> s \<noteq> [] \<and> (\<forall>d\<in>set s. 0 \<le> d)"
  by (cases x) (auto split: if_splits)

lemma ranked_shapes_nonneg:
  "s \<in> set (ranked_shapes T) \<Longrightarrow> s \<noteq> [] \<and> (\<forall>d\<in>set s. 0 \<le> d)"
proof -
  assume "s \<in> set (ranked_shapes T)"
  then obtain x where "rank_shape x = Some s"
    by (auto simp: ranked_shapes_def List.map_filter_def)
  then show ?thesis by (rule rank_shape_nonneg)
qed

lemma consensus_spec:
  assumes r: "float64_rounding rnd" and ne: "rows \<noteq> []"
    and nonneg: "\<forall>s\<in>set rows. \<forall>d\<in>set s. 0 \<le> d"
  shows "\<exists>sh. consensus rnd rows = Inr sh
     \<and> length sh = Min (set (map length rows))
     \<and> (\<forall>j d. j < length sh \<and> (\<forall>s \<in> set rows. s ! j = d) \<and> d \<le> 2 ^ 53
           \<longrightarrow> sh ! j = Some (if d = 0 then - 1 else d))
     \<and> (\<forall>j p q a b. j < length sh \<and> map (\<lambda>s. s ! j) rows = replicate a p @ [q] @ replicate b p
             \<and> 0 < a + b \<and> 0 < p \<and> p < 2 ^ 53 \<and> 0 < q \<and> q < 2 ^ 53 \<and> p \<noteq> q
           \<longrightarrow> sh ! j = None)"
proof -
  define m where "m = Min (set (map length rows))"
  from consensus_length[OF ne, of rnd] obtain sh where
    sh: "consensus rnd rows = Inr sh" "length sh = m"
    unfolding m_def by blast
  have col: "sh ! j = column_value rnd (map (\<lambda>row. adjust (row ! j)) rows)" if "j < m" for j
    using consensus_columns[OF ne, of j rnd] that sh(1) unfolding m_def by auto
  have mle: "m \<le> length s" if "s \<in> set rows" for s
    unfolding m_def using that by simp
  have agree: "sh ! j = Some (if d = 0 then - 1 else d)"
    if "j < length sh" "\<forall>s \<in> set rows. s ! j = d" "d \<le> 2 ^ 53" for j d
  proof -
    have jm: "j < m" using that(1) sh(2) by simp
    obtain s0 where s0: "s0 \<in> set rows" using ne by (cases rows) auto
    then have "j < length s0" using jm mle by fastforce
    then have "s0 ! j \<in> set s0" by simp
    with nonneg s0 that(2) have d0: "0 \<le> d" by auto
    have "column_value rnd (map (\<lambda>row. adjust (row ! j)) rows) = Some (adjust d)"
    proof (rule column_value_agree[OF r])
      show "map (\<lambda>row. adjust (row ! j)) rows \<noteq> []" using ne by simp
      show "\<forall>x\<in>set (map (\<lambda>row. adjust (row ! j)) rows). x = adjust d" using that(2) by auto
      show "adjust d \<noteq> 0" by (simp add: adjust_def)
      show "\<bar>adjust d\<bar> \<le> 2 ^ 53" using d0 that(3) by (simp add: adjust_def)
    qed
    with col[OF jm] show ?thesis by (simp add: adjust_def)
  qed
  have differ: "sh ! j = None"
    if "j < length sh" "map (\<lambda>s. s ! j) rows = replicate a p @ [q] @ replicate b p"
       "0 < a + b" "0 < p" "p < 2 ^ 53" "0 < q" "q < 2 ^ 53" "p \<noteq> q" for j p q a b
  proof -
    have jm: "j < m" using that(1) sh(2) by simp
    have "map (\<lambda>row. adjust (row ! j)) rows = map adjust (map (\<lambda>s. s ! j) rows)"
      by (simp add: comp_def)
    also have "\<dots> = replicate a p @ [q] @ replicate b p"
      unfolding that(2) using that(4,6) by (simp add: adjust_def)
    finally have c: "map (\<lambda>row. adjust (row ! j)) rows = replicate a p @ [q] @ replicate b p" .
    have "column_value rnd (map (\<lambda>row. adjust (row ! j)) rows) = None"
      by (rule column_value_one_differs[OF r that(4,5,6,7,8) c that(3)])
    with col[OF jm] show ?thesis by simp
  qed
  show ?thesis
  proof (intro exI conjI allI impI)
    show "consensus rnd rows = Inr sh" by (rule sh(1))
    show "length sh = Min (set (map length rows))" using sh(2) m_def by simp
    show "sh ! j = Some (if d = 0 then - 1 else d)"
      if "j < length sh \<and> (\<forall>s \<in> set rows. s ! j = d) \<and> d \<le> 2 ^ 53" for j d
      using that agree by blast
    show "sh ! j = None"
      if "j < length sh \<and> map (\<lambda>s. s ! j) rows = replicate a p @ [q] @ replicate b p
             \<and> 0 < a + b \<and> 0 < p \<and> p < 2 ^ 53 \<and> 0 < q \<and> q < 2 ^ 53 \<and> p \<noteq> q" for j p q a b
      using that differ by blast
  qed
qed

lemma list2_eq: "length sh = 2 \<Longrightarrow> sh ! 0 = x \<Longrightarrow> sh ! 1 = y \<Longrightarrow> sh = [x, y]"
  by (cases sh; cases "tl sh") auto

lemma Min_const_length: "rows \<noteq> [] \<Longrightarrow> \<forall>s\<in>set rows. length s = n \<Longrightarrow> Min (set (map length rows)) = n"
proof -
  assume a: "rows \<noteq> []" "\<forall>s\<in>set rows. length s = n"
  then have "set (map length rows) = {n}" by (cases rows) auto
  then show ?thesis by simp
qed

lemma consensus_all_4_3:
  assumes r: "float64_rounding rnd" and ne: "rows \<noteq> []" and all: "\<forall>s\<in>set rows. s = [4, 3]"
  shows "consensus rnd rows = Inr [Some 4, Some 3]"
proof -
  have nonneg: "\<forall>s\<in>set rows. \<forall>d\<in>set s. 0 \<le> d"
  proof (intro ballI)
    fix s d assume "s \<in> set rows" "d \<in> set s"
    with all have "d \<in> set [4, 3 :: int]" by simp
    then show "0 \<le> d" by auto
  qed
  have m: "Min (set (map length rows)) = 2"
    using ne all by (intro Min_const_length) auto
  from consensus_spec[OF r ne nonneg] obtain sh where
    sh: "consensus rnd rows = Inr sh" "length sh = 2"
    "\<And>j d. j < length sh \<Longrightarrow> \<forall>s \<in> set rows. s ! j = d \<Longrightarrow> d \<le> 2 ^ 53
           \<Longrightarrow> sh ! j = Some (if d = 0 then - 1 else d)"
    unfolding m by blast
  have "\<forall>s\<in>set rows. s ! 0 = 4" "\<forall>s\<in>set rows. s ! 1 = 3" using all by auto
  then have "sh ! 0 = Some 4" "sh ! 1 = Some 3"
    using sh(3)[of 0 4] sh(3)[of 1 3] sh(2) by simp_all
  moreover note sh(2)
  ultimately have "sh = [Some 4, Some 3]" by (intro list2_eq)
  with sh(1) show ?thesis by simp
qed

lemma consensus_one_5_3:
  assumes r: "float64_rounding rnd"
    and rows: "rows = replicate a [4, 3] @ [[5, 3]] @ replicate b [4, 3]" and ab: "0 < a + b"
  shows "consensus rnd rows = Inr [None, Some 3]"
proof -
  have ne: "rows \<noteq> []" using rows by simp
  have nonneg: "\<forall>s\<in>set rows. \<forall>d\<in>set s. 0 \<le> d" using rows by auto
  have m: "Min (set (map length rows)) = 2"
    using ne rows by (intro Min_const_length) auto
  from consensus_spec[OF r ne nonneg] obtain sh where
    sh: "consensus rnd rows = Inr sh" "length sh = 2"
    "\<And>j d. j < length sh \<Longrightarrow> \<forall>s \<in> set rows. s ! j = d \<Longrightarrow> d \<le> 2 ^ 53
           \<Longrightarrow> sh ! j = Some (if d = 0 then - 1 else d)"
    "\<And>j p q a b. j < length sh \<Longrightarrow> map (\<lambda>s. s ! j) rows = replicate a p @ [q] @ replicate b p
           \<Longrightarrow> 0 < a + b \<Longrightarrow> 0 < p \<Longrightarrow> p < 2 ^ 53 \<Longrightarrow> 0 < q \<Longrightarrow> q < 2 ^ 53 \<Longrightarrow> p \<noteq> q
           \<Longrightarrow> sh ! j = None"
    unfolding m by blast
  have "map (\<lambda>s. s ! 0) rows = replicate a 4 @ [5] @ replicate b 4"
    unfolding rows by simp
  then have "sh ! 0 = None" using sh(4)[of 0 a 4 5 b] sh(2) ab by simp
  moreover have "\<forall>s\<in>set rows. s ! 1 = 3" unfolding rows by auto
  then have "sh ! 1 = Some 3" using sh(3)[of 1 3] sh(2) by simp
  ultimately have "sh = [None, Some 3]" using sh(2) by (intro list2_eq)
  with sh(1) show ?thesis by simp
qed

section \<open>Key-chain addressing: results\<close>

text \<open>
  C7. \<open>has_key_chain\<close> is meant to answer without raising. On the container
  \<open>{"a": 5}\<close> and the path \<open>"a/b"\<close> the segment \<open>"a"\<close> resolves to the leaf \<open>5\<close>, and
  \<open>5["b"]\<close> raises \<open>TypeError\<close>, which \<open>except KeyError\<close> does not catch: the call
  raises instead of returning \<open>False\<close>.
\<close>

theorem has_key_chain_raises_on_leaf:
  "has_key_chain [(''a'', Leaf (5::int))] ''a/b'' = Inl TypeError"
  by (simp add: has_key_chain_def dict_getitem_def)
text \<open>
  C8 as stated fails: the walk does not always reach the final segment. On \<open>{"a": 5}\<close>
  the path \<open>"a/b"\<close> has the existing segment \<open>"a"\<close>, which holds the leaf \<open>5\<close>; the
  assignment \<open>cont["b"] = 1\<close> is then made on that leaf and raises \<open>TypeError\<close>: nothing
  is assigned and no tree is returned.
\<close>

theorem set_at_key_chain_raises_on_leaf:
  "set_at_key_chain [(''a'', Leaf (5::int))] ''a/b'' (Leaf 1) = Inl TypeError
   \<and> leaf_on_the_way [(''a'', Leaf (5::int))] (split_slash ''a/b'')"
  by code_simp

text \<open>
  C8, amended. \<open>set_at_key_chain(path, val)\<close> raises when the walk meets a leaf before the
  final segment, that is when a proper non-empty prefix of the path resolves to a leaf.
  For any container and any path whose walk meets no such leaf the call returns the
  receiver \<open>self'\<close> in its new state, in which
  \<^item> \<open>at_key_chain(path)\<close> is \<open>val\<close> (the value is assigned at the final segment);
  \<^item> every proper non-empty prefix of the path resolves to a container, and where that
    prefix was missing before the call the container is a new one holding the next
    segment of the path as its only key (created empty, then filled along the path);
  \<^item> every key chain that is neither a prefix nor an extension of the path resolves as it
    did before the call (existing segments are walked, nothing else is touched).
  On the empty container, \<open>set_at_key_chain("c/d", 9)\<close> gives \<open>{"c": {"d": 9}}\<close>.
\<close>

theorem set_at_key_chain_creates_and_assigns:
  "(leaf_on_the_way self (split_slash path) \<longrightarrow> (\<exists>e. set_at_key_chain self path val = Inl e))
   \<and> (\<not> leaf_on_the_way self (split_slash path) \<longrightarrow>
        (\<exists>self'. set_at_key_chain self path val = Inr self'
           \<and> at_key_chain self' path = Inr val
           \<and> (\<forall>n. 0 < n \<and> n < length (split_slash path) \<longrightarrow>
                 (\<exists>c. at_keys (Sub self') (take n (split_slash path)) = Inr (Sub c)
                    \<and> (at_keys (Sub self) (take n (split_slash path)) = Inl KeyError
                         \<longrightarrow> map fst c = [split_slash path ! n])))
           \<and> (\<forall>ks. \<not> prefix ks (split_slash path) \<and> \<not> prefix (split_slash path) ks \<longrightarrow>
                 at_keys (Sub self') ks = at_keys (Sub self) ks)))
   \<and> set_at_key_chain [] ''c/d'' (Leaf (9::int)) = Inr [(''c'', Sub [(''d'', Leaf 9)])]"
proof (intro conjI impI)
  let ?keys = "split_slash path"
  show "\<exists>e. set_at_key_chain self path val = Inl e" if "leaf_on_the_way self ?keys"
  proof -
    from that obtain n x where "0 < n" "n < length ?keys"
      "at_keys (Sub self) (take n ?keys) = Inr (Leaf x)"
      unfolding leaf_on_the_way_iff by (elim exE conjE)
    then have "\<exists>e. set_keys self ?keys val = Inl e"
      by (rule set_keys_raises)
    then show ?thesis
      by (simp only: set_at_key_chain_def)
  qed
  show "\<exists>self'. set_at_key_chain self path val = Inr self'
           \<and> at_key_chain self' path = Inr val
           \<and> (\<forall>n. 0 < n \<and> n < length ?keys \<longrightarrow>
                 (\<exists>c. at_keys (Sub self') (take n ?keys) = Inr (Sub c)
                    \<and> (at_keys (Sub self) (take n ?keys) = Inl KeyError
                         \<longrightarrow> map fst c = [?keys ! n])))
           \<and> (\<forall>ks. \<not> prefix ks ?keys \<and> \<not> prefix ?keys ks \<longrightarrow>
                 at_keys (Sub self') ks = at_keys (Sub self) ks)"
    if "\<not> leaf_on_the_way self ?keys"
  proof -
    from that have "\<forall>n x. 0 < n \<and> n < length ?keys \<longrightarrow>
        at_keys (Sub self) (take n ?keys) \<noteq> Inr (Leaf x)"
      unfolding leaf_on_the_way_iff by (simp only: not_ex de_Morgan_conj not_not) blast
    from set_keys_returns[OF split_slash_nonempty this]
    obtain self' where s: "set_keys self ?keys val = Inr self'" ..
    show ?thesis
    proof (rule exI, intro conjI allI impI)
      show "set_at_key_chain self path val = Inr self'"
        using s by (simp only: set_at_key_chain_def)
      show "at_key_chain self' path = Inr val"
        unfolding at_key_chain_def using s by (rule set_keys_assigns)
      show "\<exists>c. at_keys (Sub self') (take n ?keys) = Inr (Sub c)
                    \<and> (at_keys (Sub self) (take n ?keys) = Inl KeyError
                         \<longrightarrow> map fst c = [?keys ! n])"
        if "0 < n \<and> n < length ?keys" for n
      proof -
        from that have "0 < n" "n < length ?keys" by simp_all
        with s show ?thesis by (rule set_keys_intermediate)
      qed
      show "at_keys (Sub self') ks = at_keys (Sub self) ks"
        if "\<not> prefix ks ?keys \<and> \<not> prefix ?keys ks" for ks
      proof -
        from that have "\<not> prefix ks ?keys" "\<not> prefix ?keys ks" by simp_all
        with s show ?thesis by (rule set_keys_frame)
      qed
    qed
  qed
  show "set_at_key_chain [] ''c/d'' (Leaf (9::int)) = Inr [(''c'', Sub [(''d'', Leaf 9)])]"
    by code_simp
qed

text \<open>
  The theorem at \<open>{"a": {"x": 1}}\<close>. With the path \<open>"a/b/c"\<close>, \<open>"a"\<close> exists and is a
  container, \<open>"a/b"\<close> is missing and is created, and \<open>"a/x"\<close> is as before. With the
  path \<open>"a/x/y"\<close> the walk meets the leaf under \<open>"a/x"\<close>, and the call raises.
\<close>

theorem set_at_key_chain_creates_and_assigns_witness:
  "\<not> leaf_on_the_way [(''a'', Sub [(''x'', Leaf (1::int))])] (split_slash ''a/b/c'')
   \<and> at_keys (Sub [(''a'', Sub [(''x'', Leaf (1::int))])]) [''a'', ''b''] = Inl KeyError
   \<and> set_at_key_chain [(''a'', Sub [(''x'', Leaf (1::int))])] ''a/b/c'' (Leaf 2)
       = Inr [(''a'', Sub [(''x'', Leaf 1), (''b'', Sub [(''c'', Leaf 2)])])]
   \<and> at_key_chain [(''a'', Sub [(''x'', Leaf 1), (''b'', Sub [(''c'', Leaf (2::int))])])] ''a/b/c''
       = Inr (Leaf 2)
   \<and> at_keys (Sub [(''a'', Sub [(''x'', Leaf 1), (''b'', Sub [(''c'', Leaf (2::int))])])]) [''a'', ''x'']
       = Inr (Leaf 1)
   \<and> leaf_on_the_way [(''a'', Sub [(''x'', Leaf (1::int))])] (split_slash ''a/x/y'')
   \<and> set_at_key_chain [(''a'', Sub [(''x'', Leaf (1::int))])] ''a/x/y'' (Leaf 2) = Inl TypeError"
proof -
  let ?T = "[(''a'', Sub [(''x'', Leaf (1::int))])]"
  have h: "\<not> leaf_on_the_way ?T (split_slash ''a/b/c'')"
    by code_simp
  have k: "at_keys (Sub ?T) [''a'', ''b''] = Inl KeyError"
    by code_simp
  have s: "set_at_key_chain ?T ''a/b/c'' (Leaf 2)
       = Inr [(''a'', Sub [(''x'', Leaf 1), (''b'', Sub [(''c'', Leaf 2)])])]"
    by code_simp
  have a: "at_key_chain [(''a'', Sub [(''x'', Leaf 1), (''b'', Sub [(''c'', Leaf (2::int))])])] ''a/b/c''
       = Inr (Leaf 2)"
    by code_simp
  have f: "at_keys (Sub [(''a'', Sub [(''x'', Leaf 1), (''b'', Sub [(''c'', Leaf (2::int))])])]) [''a'', ''x'']
       = Inr (Leaf 1)"
    by code_simp
  have l: "leaf_on_the_way ?T (split_slash ''a/x/y'')"
    by code_simp
  have r: "set_at_key_chain ?T ''a/x/y'' (Leaf 2) = Inl TypeError"
    by code_simp
  from set_at_key_chain_creates_and_assigns[of ?T "''a/b/c''" "Leaf 2"] set_at_key_chain_creates_and_assigns[of ?T "''a/x/y''" "Leaf 2"] h k s a f l r
  show ?thesis
    by (simp only: simp_thms)
qed
section \<open>Flat lists: results\<close>

text \<open>
  C1. For every well-formed container \<open>T\<close>, \<open>T.from_flat_list(T.to_flat_list())\<close> returns
  a container equal to \<open>T\<close> as a dict: every key chain resolves in the result as it does
  in \<open>T\<close> (to the same leaf value, to a container, or not at all), and the flat list is
  the same. Nothing is left of the list. When the items of \<open>T\<close> are already in key order,
  as the constructor leaves them, the result is \<open>T\<close> item for item.
\<close>

theorem flatten_unflatten_round_trip:
  assumes "well_formed T"
  shows "\<exists>T'. from_flat_list T (to_flat_list T) = Inr (T', [])
           \<and> same_dict T' T
           \<and> (\<forall>ks. resolved (at_keys (Sub T') ks) = resolved (at_keys (Sub T) ks))
           \<and> to_flat_list T' = to_flat_list T
           \<and> (canon T = T \<longrightarrow> T' = T)"
proof -
  have "\<forall>ks. resolved (at_keys (Sub (canon T)) ks) = resolved (at_keys (Sub T) ks)"
    using at_keys_canon(1)[OF assms] by blast
  moreover
  have "from_flat_list T (to_flat_list T @ []) = Inr (canon T, [])"
    using assms by (rule from_flat_list_round_trip(1))
  moreover have "same_dict (canon T) T"
    by (simp only: same_dict_def canon_idem(1))
  moreover have "to_flat_list (canon T) = to_flat_list T"
    by (simp only: to_flat_list_def to_iterator_canon(1))
  ultimately show ?thesis by auto
qed

text \<open>
  The theorem at \<open>{"b": [4, 5], "a": {"x": [1, 2, 3], "e": {}}}\<close>, whose keys were
  inserted out of order and which has an empty sub-container.
\<close>

theorem flatten_unflatten_round_trip_witness:
  "well_formed [(''b'', Leaf [4, 5 :: int]), (''a'', Sub [(''x'', Leaf [1, 2, 3]), (''e'', Sub [])])]
   \<and> from_flat_list
         [(''b'', Leaf [4, 5 :: int]), (''a'', Sub [(''x'', Leaf [1, 2, 3]), (''e'', Sub [])])]
         (to_flat_list
           [(''b'', Leaf [4, 5 :: int]), (''a'', Sub [(''x'', Leaf [1, 2, 3]), (''e'', Sub [])])])
       = Inr ([(''a'', Sub [(''e'', Sub []), (''x'', Leaf [1, 2, 3])]), (''b'', Leaf [4, 5])], [])
   \<and> same_dict
         [(''a'', Sub [(''e'', Sub []), (''x'', Leaf [1, 2, 3])]), (''b'', Leaf [4, 5 :: int])]
         [(''b'', Leaf [4, 5 :: int]), (''a'', Sub [(''x'', Leaf [1, 2, 3]), (''e'', Sub [])])]"
proof -
  let ?T = "[(''b'', Leaf [4, 5 :: int]), (''a'', Sub [(''x'', Leaf [1, 2, 3]), (''e'', Sub [])])]"
  have h: "well_formed ?T"
    by code_simp
  have e: "from_flat_list ?T (to_flat_list ?T)
       = Inr ([(''a'', Sub [(''e'', Sub []), (''x'', Leaf [1, 2, 3])]), (''b'', Leaf [4, 5])], [])"
    by code_simp
  have s: "same_dict
         [(''a'', Sub [(''e'', Sub []), (''x'', Leaf [1, 2, 3])]), (''b'', Leaf [4, 5 :: int])] ?T"
    by code_simp
  from flatten_unflatten_round_trip[OF h] h e s show ?thesis
    by (simp only: simp_thms)
qed

text \<open>
  C10. \<open>from_flat_list\<close> mutates the list it is given. For every well-formed container
  with \<open>n\<close> leaves (\<open>n\<close> is also the length of its flat list) and every list of at least
  \<open>n\<close> values, the call returns, and the list is left without its first \<open>n\<close> elements:
  they are the leaves of the result, in the order of \<open>to_flat_list\<close>. With at least one
  leaf the list is not what it was.
\<close>

theorem from_flat_list_consumes_input:
  assumes "well_formed T" and "num_leaves T \<le> length flat_list"
  shows "\<exists>T'. from_flat_list T flat_list = Inr (T', drop (num_leaves T) flat_list)
           \<and> to_flat_list T' = take (num_leaves T) flat_list
           \<and> length (to_flat_list T) = num_leaves T
           \<and> (0 < num_leaves T \<longrightarrow> drop (num_leaves T) flat_list \<noteq> flat_list)"
proof -
  from from_flat_list_pops(1)[OF assms] obtain c where
    c: "from_flat_list T flat_list = Inr (c, drop (num_leaves T) flat_list)"
       "to_flat_list c = take (num_leaves T) flat_list"
    by blast
  have n: "length (to_flat_list T) = num_leaves T"
    by (simp only: to_flat_list_def length_map length_to_iterator(1))
  have d: "drop (num_leaves T) flat_list \<noteq> flat_list" if "0 < num_leaves T"
  proof
    assume "drop (num_leaves T) flat_list = flat_list"
    then have "length (drop (num_leaves T) flat_list) = length flat_list" by simp
    with that assms(2) show False by simp
  qed
  show ?thesis
  proof (intro exI conjI impI)
    show "from_flat_list T flat_list = Inr (c, drop (num_leaves T) flat_list)" by (rule c(1))
    show "to_flat_list c = take (num_leaves T) flat_list" by (rule c(2))
    show "length (to_flat_list T) = num_leaves T" by (rule n)
    show "drop (num_leaves T) flat_list \<noteq> flat_list" if "0 < num_leaves T"
      using that by (rule d)
  qed
qed

text \<open>
  The theorem at \<open>{"b": 4, "a": {"x": 1, "e": {}}}\<close> and the list \<open>[10, 20, 30]\<close>: two
  leaves, and \<open>[30]\<close> is what is left of the list.
\<close>

theorem from_flat_list_consumes_input_witness:
  "well_formed [(''b'', Leaf (4::int)), (''a'', Sub [(''x'', Leaf 1), (''e'', Sub [])])]
   \<and> num_leaves [(''b'', Leaf (4::int)), (''a'', Sub [(''x'', Leaf 1), (''e'', Sub [])])] = 2
   \<and> from_flat_list [(''b'', Leaf (4::int)), (''a'', Sub [(''x'', Leaf 1), (''e'', Sub [])])]
         [10, 20, 30]
       = Inr ([(''a'', Sub [(''e'', Sub []), (''x'', Leaf 10)]), (''b'', Leaf 20)], [30])"
proof -
  let ?T = "[(''b'', Leaf (4::int)), (''a'', Sub [(''x'', Leaf 1), (''e'', Sub [])])]"
  have h: "well_formed ?T"
    by code_simp
  have n: "num_leaves ?T = 2"
    by simp
  have l: "num_leaves ?T \<le> length [10, 20, 30 :: int]"
    by simp
  have e: "from_flat_list ?T [10, 20, 30]
       = Inr ([(''a'', Sub [(''e'', Sub []), (''x'', Leaf 10)]), (''b'', Leaf 20)], [30])"
    by code_simp
  from from_flat_list_consumes_input[OF h l] h n e show ?thesis
    by (simp only: simp_thms)
qed

section \<open>The iterator: results\<close>

text \<open>
  C6 as stated fails. On \<open>{"a": {"x": [1, 2, 3]}, "b": [4, 5]}\<close> the iterator yields the
  leaf \<open>[1, 2, 3]\<close> under its own key \<open>"x"\<close>, not under its key chain \<open>"a/x"\<close>.
\<close>

theorem to_iterator_yields_own_key:
  "to_iterator [(''a'', Sub [(''x'', Leaf [1, 2, 3 :: int])]), (''b'', Leaf [4, 5])]
     = [(''x'', [1, 2, 3]), (''b'', [4, 5])]
   \<and> to_iterator [(''a'', Sub [(''x'', Leaf [1, 2, 3 :: int])]), (''b'', Leaf [4, 5])]
     \<noteq> [(''a/x'', [1, 2, 3]), (''b'', [4, 5])]"
  by code_simp

text \<open>
  C6, amended. For every well-formed container, \<open>to_iterator\<close> yields a finite sequence
  with one pair for every leaf: the leaf's own key (the last key of its key chain) and
  its value. The leaves come depth first with the keys of every level in order, that
  is, in the strict lexicographic order of their key chains: \<open>leaf_chains\<close> lists exactly
  the key chains that resolve to a leaf, in increasing order. On
  \<open>{"a": {"x": [1, 2, 3]}, "b": [4, 5]}\<close>, \<open>to_flat_list\<close> is \<open>[[1, 2, 3], [4, 5]]\<close>.
\<close>

theorem to_iterator_leaves_in_key_order:
  assumes "well_formed T"
  shows "to_iterator T = map (\<lambda>(ks, x). (last ks, x)) (leaf_chains T)
     \<and> (\<forall>ks x. (ks, x) \<in> set (leaf_chains T) \<longleftrightarrow> ks \<noteq> [] \<and> at_keys (Sub T) ks = Inr (Leaf x))
     \<and> sorted_wrt (<) (map fst (leaf_chains T))
     \<and> length (to_iterator T) = num_leaves T
     \<and> to_flat_list [(''a'', Sub [(''x'', Leaf [1, 2, 3 :: int])]), (''b'', Leaf [4, 5])]
         = [[1, 2, 3], [4, 5]]"
proof -
  have "to_flat_list [(''a'', Sub [(''x'', Leaf [1, 2, 3 :: int])]), (''b'', Leaf [4, 5])]
         = [[1, 2, 3], [4, 5]]"
    by code_simp
  with to_iterator_leaf_chains(1)[of T] leaf_chains_membership(1)[OF assms]
    leaf_chains_sorted(1)[OF assms] length_to_iterator(1)[of T]
  show ?thesis by (simp only: simp_thms)
qed

text \<open>
  The theorem at \<open>{"b": [4, 5], "a": {"x": [1, 2, 3]}}\<close>: the key chains of the leaves
  are \<open>["a", "x"]\<close> and \<open>["b"]\<close>, in this order.
\<close>

theorem to_iterator_leaves_in_key_order_witness:
  "well_formed [(''b'', Leaf [4, 5 :: int]), (''a'', Sub [(''x'', Leaf [1, 2, 3])])]
   \<and> leaf_chains [(''b'', Leaf [4, 5 :: int]), (''a'', Sub [(''x'', Leaf [1, 2, 3])])]
       = [([''a'', ''x''], [1, 2, 3]), ([''b''], [4, 5])]
   \<and> to_iterator [(''b'', Leaf [4, 5 :: int]), (''a'', Sub [(''x'', Leaf [1, 2, 3])])]
       = [(''x'', [1, 2, 3]), (''b'', [4, 5])]"
proof -
  let ?T = "[(''b'', Leaf [4, 5 :: int]), (''a'', Sub [(''x'', Leaf [1, 2, 3])])]"
  have h: "well_formed ?T"
    by code_simp
  have c: "leaf_chains ?T = [([''a'', ''x''], [1, 2, 3]), ([''b''], [4, 5])]"
    by code_simp
  from to_iterator_leaves_in_key_order[OF h] have
    "to_iterator ?T = map (\<lambda>(ks, x). (last ks, x)) (leaf_chains ?T)"
    by (rule conjunct1)
  with h c show ?thesis
    by simp
qed

section \<open>Map: results\<close>

text \<open>
  C4 as stated fails. \<open>{"a": {}}\<close> has an empty sub-container; mapping the identity
  over it returns \<open>{}\<close>, because \<open>if ret:\<close> drops the empty result of the recursive call.
\<close>

theorem map_identity_drops_empty_subcontainer:
  "map_container [(''a'', Sub ([] :: int container))] (\<lambda>x kc. x) None True False [] = Inr []
   \<and> \<not> same_dict ([] :: int container) [(''a'', Sub [])]"
  by code_simp

text \<open>
  C4, amended. For every well-formed container \<open>T\<close> none of whose sub-containers, at any
  depth, is empty, \<open>T.map\<close> of the identity with no \<open>key_chains\<close> returns a container
  equal to \<open>T\<close> as a dict: every key chain resolves in the result as it does in \<open>T\<close>,
  so the topology is the same and every leaf unchanged (and the result is \<open>T\<close> item for
  item when the keys of \<open>T\<close> are in order).
\<close>

theorem map_identity_without_empty_subcontainers:
  assumes "well_formed T" and "no_empty_sub T"
  shows "\<exists>T'. map_container T (\<lambda>x kc. x) None to_apply prune_unapplied key_chain = Inr T'
           \<and> same_dict T' T
           \<and> (\<forall>ks. resolved (at_keys (Sub T') ks) = resolved (at_keys (Sub T) ks))
           \<and> (canon T = T \<longrightarrow> T' = T)"
proof -
  have m: "map_container T (\<lambda>x kc. x) None to_apply prune_unapplied key_chain = Inr (canon T)"
    using map_container_mapped(1)[OF assms(1)] mapped_identity(1)[OF assms(2)]
    by (simp only:)
  have s: "same_dict (canon T) T"
    by (simp only: same_dict_def canon_idem(1))
  show ?thesis
  proof (intro exI conjI impI allI)
    show "map_container T (\<lambda>x kc. x) None to_apply prune_unapplied key_chain = Inr (canon T)"
      by (rule m)
    show "same_dict (canon T) T"
      by (rule s)
    show "resolved (at_keys (Sub (canon T)) ks) = resolved (at_keys (Sub T) ks)" for ks
      using assms(1) by (rule at_keys_canon(1))
    show "canon T = T" if "canon T = T"
      by (rule that)
  qed
qed

text \<open>The theorem at \<open>{"b": 4, "a": {"x": 1}}\<close>.\<close>

theorem map_identity_without_empty_subcontainers_witness:
  "well_formed [(''b'', Leaf (4::int)), (''a'', Sub [(''x'', Leaf 1)])]
   \<and> no_empty_sub [(''b'', Leaf (4::int)), (''a'', Sub [(''x'', Leaf 1)])]
   \<and> map_container [(''b'', Leaf (4::int)), (''a'', Sub [(''x'', Leaf 1)])] (\<lambda>x kc. x) None True False []
       = Inr [(''a'', Sub [(''x'', Leaf 1)]), (''b'', Leaf 4)]
   \<and> same_dict [(''a'', Sub [(''x'', Leaf 1)]), (''b'', Leaf 4)]
        [(''b'', Leaf (4::int)), (''a'', Sub [(''x'', Leaf 1)])]"
proof -
  let ?T = "[(''b'', Leaf (4::int)), (''a'', Sub [(''x'', Leaf 1)])]"
  have h: "well_formed ?T"
    by code_simp
  have n: "no_empty_sub ?T"
    by simp
  have e: "map_container ?T (\<lambda>x kc. x) None True False []
       = Inr [(''a'', Sub [(''x'', Leaf 1)]), (''b'', Leaf 4)]"
    by code_simp
  have s: "same_dict [(''a'', Sub [(''x'', Leaf 1)]), (''b'', Leaf 4)] ?T"
    by code_simp
  from map_identity_without_empty_subcontainers[OF h n, of True False "[]"] h n e s
  show ?thesis
    by (simp only: simp_thms)
qed

text \<open>
  C5. For every well-formed container, \<open>map\<close> returns, and for every leaf \<open>x\<close> of the
  container, reached under the keys \<open>ks\<close> with the accumulated key chain
  \<open>p = acc_chain key_chain ks\<close>:
  \<^item> when the leaf is selected (\<open>key_chains\<close> is \<open>None\<close>, or \<open>(p in key_chains) == to_apply\<close>)
    the result holds \<open>func(x, p)\<close> under \<open>ks\<close>;
  \<^item> otherwise, with \<open>prune_unapplied\<close>, \<open>ks\<close> does not resolve in the result (the leaf is
    omitted), and without it the result holds \<open>x\<close> itself under \<open>ks\<close>.
\<close>

theorem map_selection_policy:
  assumes "well_formed T"
  shows "\<exists>R. map_container T func key_chains to_apply prune_unapplied key_chain = Inr R
     \<and> (\<forall>ks x. at_keys (Sub T) ks = Inr (Leaf x) \<longrightarrow>
           at_keys (Sub R) ks =
             (if selected key_chains to_apply (acc_chain key_chain ks)
              then Inr (Leaf (func x (acc_chain key_chain ks)))
              else if prune_unapplied then Inl KeyError else Inr (Leaf x)))"
proof (intro exI conjI allI impI)
  show "map_container T func key_chains to_apply prune_unapplied key_chain
      = Inr (mapped T func key_chains to_apply prune_unapplied key_chain)"
    by (rule map_container_mapped(1)[OF assms])
  show "at_keys (Sub (mapped T func key_chains to_apply prune_unapplied key_chain)) ks =
             (if selected key_chains to_apply (acc_chain key_chain ks)
              then Inr (Leaf (func x (acc_chain key_chain ks)))
              else if prune_unapplied then Inl KeyError else Inr (Leaf x))"
    if "at_keys (Sub T) ks = Inr (Leaf x)" for ks x
    using assms that by (rule mapped_lookup(1))
qed

text \<open>
  The theorem at \<open>{"b": 4, "a": {"x": 1, "y": 2}}\<close> with \<open>key_chains = ["a/x"]\<close> and a
  function that adds 100: applied to \<open>"a/x"\<close> only; the other leaves are copied, or
  omitted under \<open>prune_unapplied\<close>.
\<close>

theorem map_selection_policy_witness:
  "well_formed [(''b'', Leaf (4::int)), (''a'', Sub [(''x'', Leaf 1), (''y'', Leaf 2)])]
   \<and> map_container [(''b'', Leaf (4::int)), (''a'', Sub [(''x'', Leaf 1), (''y'', Leaf 2)])]
         (\<lambda>x kc. x + 100) (Some [''a/x'']) True False []
       = Inr [(''a'', Sub [(''x'', Leaf 101), (''y'', Leaf 2)]), (''b'', Leaf 4)]
   \<and> map_container [(''b'', Leaf (4::int)), (''a'', Sub [(''x'', Leaf 1), (''y'', Leaf 2)])]
         (\<lambda>x kc. x + 100) (Some [''a/x'']) True True []
       = Inr [(''a'', Sub [(''x'', Leaf 101)])]
   \<and> acc_chain [] [''a'', ''x''] = ''a/x''"
proof -
  let ?T = "[(''b'', Leaf (4::int)), (''a'', Sub [(''x'', Leaf 1), (''y'', Leaf 2)])]"
  have h: "well_formed ?T"
    by code_simp
  have e1: "map_container ?T (\<lambda>x kc. x + 100) (Some [''a/x'']) True False []
       = Inr [(''a'', Sub [(''x'', Leaf 101), (''y'', Leaf 2)]), (''b'', Leaf 4)]"
    by code_simp
  have e2: "map_container ?T (\<lambda>x kc. x + 100) (Some [''a/x'']) True True []
       = Inr [(''a'', Sub [(''x'', Leaf 101)])]"
    by code_simp
  have a: "acc_chain [] [''a'', ''x''] = ''a/x''"
    by simp
  from map_selection_policy[OF h, of "\<lambda>x kc. x + 100" "Some [''a/x'']" True False "[]"] h e1 e2 a
  show ?thesis
    by (simp only: simp_thms)
qed

section \<open>Multi-tree reduce: results\<close>

text \<open>
  C3 as stated fails. In \<open>reduce([{"a": 1}, {"a": 2, "b": 3}], reduction)\<close> the key
  \<open>"b"\<close> is present only in the later container, so the topologies disagree; the loop
  runs over the keys of the first container only, and the call returns \<open>{"a": 3}\<close>.
\<close>

theorem reduce_ignores_extra_keys:
  "reduce [Sub [(''a'', Leaf 1)], Sub [(''a'', Leaf 2), (''b'', Leaf 3)]] add_leaves
     = Inr (Sub [(''a'', Leaf 3)])
   \<and> \<not> agrees (Sub [(''a'', Leaf (1::int))]) (Sub [(''a'', Leaf 2), (''b'', Leaf 3)])"
  by code_simp

text \<open>
  C3, amended. \<open>reduce\<close> has no check of the topologies: at every level it runs over the
  keys of the first container and looks each of them up in all the containers. For
  well-formed containers \<open>t0, ts\<close>:
  \<^item> \<open>reduce\<close> returns exactly when every key chain that resolves in the first container
    \<open>t0\<close> resolves in every other one, and at every leaf position of \<open>t0\<close> the
    \<open>reduction\<close> returns a value for the list of the values found at that position in
    \<open>t0, ts\<close>, in this order. So the call fails whenever a key of the first container,
    at any level, is missing from a later one, and a key present only in a later
    container is not looked at and makes no failure;
  \<^item> whenever \<open>reduce\<close> returns, the result holds at every leaf position of \<open>t0\<close> the
    value of \<open>reduction\<close> on that list;
  \<^item> when all topologies agree with that of \<open>t0\<close>, the values of that list are leaves, and
    \<open>reduce\<close> returns provided \<open>reduction\<close> does on every non-empty list of leaves.
\<close>

theorem reduce_follows_first_container:
  assumes "\<forall>t \<in> set (t0 # ts). well_formed_val t"
  shows "((\<exists>r. reduce (t0 # ts) reduction = Inr r) \<longleftrightarrow>
            ((\<forall>t \<in> set ts. \<forall>ks v. at_keys t0 ks = Inr v \<longrightarrow> (\<exists>u. at_keys t ks = Inr u))
             \<and> (\<forall>ks x. at_keys t0 ks = Inr (Leaf x) \<longrightarrow>
                   (\<exists>vs y. map (\<lambda>t. at_keys t ks) (t0 # ts) = map Inr vs \<and> reduction vs = Some y))))
     \<and> (\<forall>r. reduce (t0 # ts) reduction = Inr r \<longrightarrow>
            (\<forall>ks x. at_keys t0 ks = Inr (Leaf x) \<longrightarrow>
                (\<exists>vs y. map (\<lambda>t. at_keys t ks) (t0 # ts) = map Inr vs \<and> reduction vs = Some y
                      \<and> at_keys r ks = Inr (Leaf y))))
     \<and> ((\<forall>t \<in> set ts. agrees t0 t) \<longrightarrow>
          (\<forall>t \<in> set ts. \<forall>ks x. at_keys t0 ks = Inr (Leaf x) \<longrightarrow> (\<exists>y. at_keys t ks = Inr (Leaf y)))
          \<and> ((\<forall>xs. xs \<noteq> [] \<longrightarrow> reduction (map Leaf xs) \<noteq> None) \<longrightarrow>
               (\<exists>r. reduce (t0 # ts) reduction = Inr r)))"
proof -
  let ?covers = "\<forall>t \<in> set ts. \<forall>ks v. at_keys t0 ks = Inr v \<longrightarrow> (\<exists>u. at_keys t ks = Inr u)"
  let ?applies = "\<forall>ks x. at_keys t0 ks = Inr (Leaf x) \<longrightarrow>
       (\<exists>vs y. map (\<lambda>t. at_keys t ks) (t0 # ts) = map Inr vs \<and> reduction vs = Some y)"
  have established: "reduces_to reduction (t0 # ts) r" if "reduce (t0 # ts) reduction = Inr r" for r
    using assms that by (rule reduce_reduces_to(1))
  have necessary: "?covers \<and> ?applies" if "reduce (t0 # ts) reduction = Inr r" for r
  proof (intro conjI ballI allI impI)
    fix t ks v
    assume "t \<in> set ts" and "at_keys t0 ks = Inr v"
    with established[OF that] show "\<exists>u. at_keys t ks = Inr u"
      unfolding reduces_to_def list.sel by (meson list.set_intros(2))
  next
    fix ks x
    assume "at_keys t0 ks = Inr (Leaf x)"
    with established[OF that]
    show "\<exists>vs y. map (\<lambda>t. at_keys t ks) (t0 # ts) = map Inr vs \<and> reduction vs = Some y"
      unfolding reduces_to_def list.sel by meson
  qed
  have sufficient: "\<exists>r. reduce (t0 # ts) reduction = Inr r" if c: "?covers" and a: "?applies"
  proof -
    have "reducible reduction (t0 # ts)"
      unfolding reducible_def list.sel
    proof (intro conjI ballI allI impI)
      fix t ks v
      assume t: "t \<in> set (t0 # ts)" and v: "at_keys t0 ks = Inr v"
      show "\<exists>u. at_keys t ks = Inr u"
      proof (cases "t = t0")
        case True
        with v show ?thesis by simp
      next
        case False
        with t have "t \<in> set ts" by simp
        with c v show ?thesis by blast
      qed
    next
      fix ks x
      assume "at_keys t0 ks = Inr (Leaf x)"
      with a show "\<exists>vs y. map (\<lambda>t. at_keys t ks) (t0 # ts) = map Inr vs \<and> reduction vs = Some y"
        by blast
    qed
    with assms show ?thesis
      by (intro reducible_returns(1)) simp_all
  qed
  show ?thesis
  proof (intro conjI allI impI ballI iffI)
    show "\<exists>u. at_keys t ks = Inr u"
      if "\<exists>r. reduce (t0 # ts) reduction = Inr r" "t \<in> set ts" "at_keys t0 ks = Inr v" for t ks v
      using that necessary by blast
    show "\<exists>vs y. map (\<lambda>t. at_keys t ks) (t0 # ts) = map Inr vs \<and> reduction vs = Some y"
      if "\<exists>r. reduce (t0 # ts) reduction = Inr r" "at_keys t0 ks = Inr (Leaf x)" for ks x
      using that necessary by blast
    show "\<exists>r. reduce (t0 # ts) reduction = Inr r" if "?covers \<and> ?applies"
      using that sufficient by blast
    show "\<exists>vs y. map (\<lambda>t. at_keys t ks) (t0 # ts) = map Inr vs \<and> reduction vs = Some y
                      \<and> at_keys r ks = Inr (Leaf y)"
      if "reduce (t0 # ts) reduction = Inr r" "at_keys t0 ks = Inr (Leaf x)" for r ks x
      using established[OF that(1)] that(2) unfolding reduces_to_def list.sel by meson
    show "\<exists>y. at_keys t ks = Inr (Leaf y)"
      if "\<forall>t \<in> set ts. agrees t0 t" "t \<in> set ts" "at_keys t0 ks = Inr (Leaf x)" for t ks x
    proof -
      have "well_formed_val t0" using assms by simp
      moreover have "agrees t0 t" using that(1,2) by blast
      ultimately show ?thesis using that(3) by (rule agrees_leaf_position)
    qed
    show "\<exists>r. reduce (t0 # ts) reduction = Inr r"
      if "\<forall>t \<in> set ts. agrees t0 t" "\<forall>xs. xs \<noteq> [] \<longrightarrow> reduction (map Leaf xs) \<noteq> None"
      using that(2) _ assms
    proof (rule reduce_returns(1))
      show "t0 # ts \<noteq> []" by simp
      show "\<forall>t\<in>set (tl (t0 # ts)). agrees (hd (t0 # ts)) t" using that(1) by simp
    qed
  qed
qed

text \<open>
  The theorem at \<open>[{"z": 1, "b": {"c": 5}}, {"z": 2, "b": {"c": 5}}]\<close> with a reduction
  that adds up: the topologies agree and the result is \<open>{"b": {"c": 10}, "z": 3}\<close>.
\<close>

theorem reduce_follows_first_container_witness:
  "well_formed_val (Sub [(''z'', Leaf (1::int)), (''b'', Sub [(''c'', Leaf 5)])])
   \<and> well_formed_val (Sub [(''z'', Leaf (2::int)), (''b'', Sub [(''c'', Leaf 5)])])
   \<and> agrees (Sub [(''z'', Leaf (1::int)), (''b'', Sub [(''c'', Leaf 5)])])
        (Sub [(''z'', Leaf 2), (''b'', Sub [(''c'', Leaf 5)])])
   \<and> reduce [Sub [(''z'', Leaf 1), (''b'', Sub [(''c'', Leaf 5)])],
              Sub [(''z'', Leaf 2), (''b'', Sub [(''c'', Leaf 5)])]] add_leaves
       = Inr (Sub [(''b'', Sub [(''c'', Leaf 10)]), (''z'', Leaf 3)])
   \<and> at_keys (Sub [(''z'', Leaf (1::int)), (''b'', Sub [(''c'', Leaf 5)])]) [''b'', ''c'']
       = Inr (Leaf 5)
   \<and> (\<forall>xs. add_leaves (map Leaf xs) = Some (sum_list xs))"
proof -
  let ?t0 = "Sub [(''z'', Leaf (1::int)), (''b'', Sub [(''c'', Leaf 5)])]"
  let ?t1 = "Sub [(''z'', Leaf (2::int)), (''b'', Sub [(''c'', Leaf 5)])]"
  have w0: "well_formed_val ?t0"
    by code_simp
  have w1: "well_formed_val ?t1"
    by code_simp
  have h: "\<forall>t \<in> set (?t0 # [?t1]). well_formed_val t"
    using w0 w1 by simp
  have a: "agrees ?t0 ?t1"
    by code_simp
  have e: "reduce [?t0, ?t1] add_leaves = Inr (Sub [(''b'', Sub [(''c'', Leaf 10)]), (''z'', Leaf 3)])"
    by code_simp
  have l: "at_keys ?t0 [''b'', ''c''] = Inr (Leaf 5)"
    by code_simp
  have s: "\<forall>xs. add_leaves (map Leaf xs) = Some (sum_list xs)"
  proof
    fix xs show "add_leaves (map Leaf xs) = Some (sum_list xs)"
      by (induction xs) simp_all
  qed
  from reduce_follows_first_container[OF h, of add_leaves] w0 w1 a e l s
  show ?thesis
    by (simp only: simp_thms)
qed

section \<open>Consensus shape: results\<close>

text \<open>
  C2 as stated fails, in five ways. With leaves of shapes \<open>[4, 3]\<close> and \<open>[0, 3]\<close> the
  dimension \<open>0\<close> is no wildcard: it is replaced by \<open>-1\<close> and compared like any other
  value, and the shape is \<open>[None, 3]\<close>. A single empty list as leaf gives \<open>[-1]\<close>. A
  container with keys but without an array, list or tuple among its leaves raises
  \<open>ValueError\<close> (\<open>min\<close> of an empty sequence). Leaves of shapes \<open>[2]\<close>, \<open>[1]\<close>,
  \<open>[4]\<close> disagree but give \<open>[2]\<close>, since the product of the quotients \<open>1\<close>, \<open>1/2\<close>, \<open>2\<close>
  is \<open>1\<close>. And leaves of shapes \<open>[0]\<close>, \<open>[1]\<close>, \<open>[1]\<close> give \<open>[-1]\<close>, neither the
  dimension of the others nor \<open>None\<close>: the quotients are \<open>1\<close>, \<open>-1\<close>, \<open>-1\<close>. All
  quotients and products of these examples are floats, so that rounding changes none of
  them: the rounding is the identity here.
\<close>

theorem shape_zero_is_no_wildcard:
  "get_shape (\<lambda>q. q) [(''a'', Leaf (Array [4, 3])), (''b'', Leaf (Array [0, 3]))]
     = Inr [None, Some 3]
   \<and> get_shape (\<lambda>q. q) [(''a'', Leaf (PyList []))] = Inr [Some (- 1)]
   \<and> get_shape (\<lambda>q. q) [(''a'', Leaf (PyInt 5))] = Inl ValueError
   \<and> get_shape (\<lambda>q. q)
        [(''a'', Leaf (Array [2])), (''b'', Leaf (Array [1])), (''c'', Leaf (Array [4]))]
     = Inr [Some 2]
   \<and> get_shape (\<lambda>q. q)
        [(''a'', Leaf (Array [0])), (''b'', Leaf (Array [1])), (''c'', Leaf (Array [1]))]
     = Inr [Some (- 1)]"
  by code_simp

text \<open>
  C2, amended. A container with no keys has shape \<open>[0]\<close>. For a well-formed container
  with at least one ranked leaf (an array of rank at least one, a list or a tuple; other
  leaves are ignored), under any rounding with the properties of \<open>float64_rounding\<close>:
  \<^item> the shape has the length of the shortest shape among the ranked leaves;
  \<^item> at a position where all ranked leaves have the same dimension \<open>d\<close>, at most \<open>2^53\<close>,
    the value is \<open>d\<close>, and \<open>-1\<close> when \<open>d\<close> is \<open>0\<close>;
  \<^item> at a position where all ranked leaves but one have the dimension \<open>p\<close> and that one
    has \<open>q\<close>, different from \<open>p\<close>, with \<open>0 < p < 2^53\<close> and \<open>0 < q < 2^53\<close>, the value
    is \<open>None\<close>, wherever the one leaf comes in the order.
  Nothing is said of the other positions where the dimensions differ: those with a
  dimension \<open>0\<close> among them and those where more than one leaf differs, where the value
  depends on the order of the leaves and on the product of the quotients.
  In particular ranked leaves that all have shape \<open>[4, 3]\<close> give \<open>[4, 3]\<close>, and with one
  more leaf of shape \<open>[5, 3]\<close>, wherever it comes in the order, \<open>[None, 3]\<close>.
\<close>

theorem consensus_shape:
  assumes "float64_rounding rnd" and "well_formed T"
  shows "get_shape rnd [] = Inr [Some 0]
     \<and> (ranked_shapes T \<noteq> [] \<longrightarrow>
          (\<exists>sh. get_shape rnd T = Inr sh
             \<and> length sh = Min (set (map length (ranked_shapes T)))
             \<and> (\<forall>j d. j < length sh \<and> (\<forall>s \<in> set (ranked_shapes T). s ! j = d) \<and> d \<le> 2 ^ 53
                   \<longrightarrow> sh ! j = Some (if d = 0 then - 1 else d))
             \<and> (\<forall>j p q a b. j < length sh
                     \<and> map (\<lambda>s. s ! j) (ranked_shapes T) = replicate a p @ [q] @ replicate b p
                     \<and> 0 < a + b \<and> 0 < p \<and> p < 2 ^ 53 \<and> 0 < q \<and> q < 2 ^ 53 \<and> p \<noteq> q
                   \<longrightarrow> sh ! j = None)))
     \<and> (ranked_shapes T \<noteq> [] \<and> (\<forall>s \<in> set (ranked_shapes T). s = [4, 3])
          \<longrightarrow> get_shape rnd T = Inr [Some 4, Some 3])
     \<and> (\<forall>a b. ranked_shapes T = replicate a [4, 3] @ [[5, 3]] @ replicate b [4, 3] \<and> 0 < a + b
          \<longrightarrow> get_shape rnd T = Inr [None, Some 3])"
proof -
  have empty: "get_shape rnd [] = Inr [Some 0]"
    by (simp add: get_shape_def)
  have g: "get_shape rnd T = consensus rnd (ranked_shapes T)" if "ranked_shapes T \<noteq> []"
  proof -
    from that have "T \<noteq> []"
      by (auto simp: ranked_shapes_def to_flat_list_def sorted_items_def)
    with assms(2) show ?thesis by (rule get_shape_consensus)
  qed
  have nonneg: "\<forall>s\<in>set (ranked_shapes T). \<forall>d\<in>set s. 0 \<le> d"
    using ranked_shapes_nonneg by blast
  show ?thesis
  proof (intro conjI allI impI)
    show "get_shape rnd [] = Inr [Some 0]" by (rule empty)
    show "\<exists>sh. get_shape rnd T = Inr sh
             \<and> length sh = Min (set (map length (ranked_shapes T)))
             \<and> (\<forall>j d. j < length sh \<and> (\<forall>s \<in> set (ranked_shapes T). s ! j = d) \<and> d \<le> 2 ^ 53
                   \<longrightarrow> sh ! j = Some (if d = 0 then - 1 else d))
             \<and> (\<forall>j p q a b. j < length sh
                     \<and> map (\<lambda>s. s ! j) (ranked_shapes T) = replicate a p @ [q] @ replicate b p
                     \<and> 0 < a + b \<and> 0 < p \<and> p < 2 ^ 53 \<and> 0 < q \<and> q < 2 ^ 53 \<and> p \<noteq> q
                   \<longrightarrow> sh ! j = None)"
      if "ranked_shapes T \<noteq> []"
      unfolding g[OF that] using assms(1) that nonneg by (rule consensus_spec)
    show "get_shape rnd T = Inr [Some 4, Some 3]"
      if "ranked_shapes T \<noteq> [] \<and> (\<forall>s \<in> set (ranked_shapes T). s = [4, 3])"
    proof -
      from that have ne: "ranked_shapes T \<noteq> []" and all: "\<forall>s \<in> set (ranked_shapes T). s = [4, 3]"
        by simp_all
      show ?thesis unfolding g[OF ne] using assms(1) ne all by (rule consensus_all_4_3)
    qed
    show "get_shape rnd T = Inr [None, Some 3]"
      if "ranked_shapes T = replicate a [4, 3] @ [[5, 3]] @ replicate b [4, 3] \<and> 0 < a + b" for a b
    proof -
      from that have rows: "ranked_shapes T = replicate a [4, 3] @ [[5, 3]] @ replicate b [4, 3]"
        and ab: "0 < a + b" by simp_all
      from rows have ne: "ranked_shapes T \<noteq> []" by simp
      show ?thesis unfolding g[OF ne] using assms(1) rows ab by (rule consensus_one_5_3)
    qed
  qed
qed

text \<open>
  The theorem with the identity as rounding, at a tree with leaves of shape \<open>[4, 3]\<close>
  under \<open>"a"\<close> and \<open>"b/c"\<close>, a number under \<open>"b/d"\<close> and a leaf of shape \<open>[5, 3]\<close> under
  \<open>"e"\<close>.
\<close>

theorem consensus_shape_witness:
  "float64_rounding (\<lambda>q. q)
   \<and> well_formed [(''a'', Leaf (Array [4, 3])),
                  (''b'', Sub [(''c'', Leaf (Array [4, 3])), (''d'', Leaf (PyInt 7))]),
                  (''e'', Leaf (Array [5, 3]))]
   \<and> ranked_shapes [(''a'', Leaf (Array [4, 3])),
                  (''b'', Sub [(''c'', Leaf (Array [4, 3])), (''d'', Leaf (PyInt 7))]),
                  (''e'', Leaf (Array [5, 3]))]
       = replicate 2 [4, 3] @ [[5, 3]] @ replicate 0 [4, 3]
   \<and> get_shape (\<lambda>q. q) [(''a'', Leaf (Array [4, 3])),
                  (''b'', Sub [(''c'', Leaf (Array [4, 3])), (''d'', Leaf (PyInt 7))]),
                  (''e'', Leaf (Array [5, 3]))]
       = Inr [None, Some 3]"
proof -
  let ?T = "[(''a'', Leaf (Array [4, 3])),
             (''b'', Sub [(''c'', Leaf (Array [4, 3])), (''d'', Leaf (PyInt 7))]),
             (''e'', Leaf (Array [5, 3]))]"
  have f: "float64_rounding (\<lambda>q. q)"
    by (simp add: float64_rounding_def)
  have h: "well_formed ?T"
    by code_simp
  have r: "ranked_shapes ?T = replicate 2 [4, 3] @ [[5, 3]] @ replicate 0 [4, 3]"
    by code_simp
  from consensus_shape[OF f h] have
    "\<forall>a b. ranked_shapes ?T = replicate a [4, 3] @ [[5, 3]] @ replicate b [4, 3] \<and> 0 < a + b
          \<longrightarrow> get_shape (\<lambda>q. q) ?T = Inr [None, Some 3]"
    by (elim conjE)
  with r have "get_shape (\<lambda>q. q) ?T = Inr [None, Some 3]"
    by (metis add_cancel_right_right zero_less_numeral)
  with f h r show ?thesis
    by (simp only: simp_thms)
qed

section \<open>Writing to an HDF5 file: results\<close>

text \<open>
  C9. Every leaf is to be written against its own batch size when \<open>max_batch_size\<close> is not
  given: the dataset created with \<open>starting_index\<close> plus this batch's size, and all rows
  written. The code does so for the first leaf only. Writing
  \<open>{"a": <2 rows>, "b": <3 rows>}\<close> to a new file with \<open>starting_index = 0\<close> and no
  \<open>max_batch_size\<close>, the assignment made for \<open>"a"\<close> stays in the variable: the dataset
  \<open>"b"\<close> is created with first dimension 2 instead of 3 and its third row is dropped,
  whereas \<open>"b"\<close> written on its own gets all three rows. With both parameters given the
  code does what is claimed: a batch of 3 with \<open>starting_index = 2\<close> and
  \<open>max_batch_size = 4\<close> puts its first 2 rows into the rows 2 and 3 of the dataset.
\<close>

theorem to_disk_as_hdf5_keeps_first_batch_size:
  "to_disk_as_hdf5
     [(''a'', Leaf (Batch [] [10, 11 :: int])), (''b'', Leaf (Batch [] [20, 21, 22]))]
     (Group []) 0 None
     = Inr (Group [(''a'', Dataset [] [Some 10, Some 11]), (''b'', Dataset [] [Some 20, Some 21])])
   \<and> to_disk_as_hdf5 [(''b'', Leaf (Batch [] [20, 21, 22 :: int]))] (Group []) 0 None
     = Inr (Group [(''b'', Dataset [] [Some 20, Some 21, Some 22])])
   \<and> to_disk_as_hdf5 [(''x'', Leaf (Batch [] [20, 21, 22 :: int]))] (Group []) 2 (Some 4)
     = Inr (Group [(''x'', Dataset [] [None, None, Some 20, Some 21])])"
  by code_simp

end
